theory Spec2Isabelle
  imports Main "HOL-Library.List_Lexorder"
begin

section \<open>The data model of package itertools\<close>

text \<open>
  Every function of \<^verbatim>\<open>itertools.go\<close> works on Go slices of \<^verbatim>\<open>int\<close>. A slice
  \<^verbatim>\<open>[]int\<close> is an \<^typ>\<open>int list\<close>, a slice of slices an \<^typ>\<open>int list list\<close>. A
  \<^verbatim>\<open>nil\<close> slice and an empty slice both have length 0 and are both the list \<open>[]\<close>.
  Positions inside a slice and loop counters that never go below 0 are \<^typ>\<open>nat\<close>.

  A slice expression \<^verbatim>\<open>xs[i]\<close> panics at run time when \<^verbatim>\<open>i\<close> is not below
  \<^verbatim>\<open>len(xs)\<close>, and \<^verbatim>\<open>make([]int, r)\<close> panics when \<^verbatim>\<open>r\<close> is negative. A panic is
  the \<open>Inl\<close> branch of a sum; a function that can reach such an expression returns
  \<open>panic + result\<close>.
\<close>

datatype panic = IndexOutOfRange | MakeSliceLenOutOfRange

definition index :: "'a list \<Rightarrow> nat \<Rightarrow> panic + 'a" where
  \<comment> \<open>the read \<^verbatim>\<open>xs[i]\<close>\<close>
  "index xs i = (if i < length xs then Inr (xs ! i) else Inl IndexOutOfRange)"

definition store :: "'a list \<Rightarrow> nat \<Rightarrow> 'a \<Rightarrow> panic + 'a list" where
  \<comment> \<open>the assignment \<^verbatim>\<open>xs[i] = v\<close>\<close>
  "store xs i v = (if i < length xs then Inr (xs[i := v]) else Inl IndexOutOfRange)"

section \<open>The single-pass utilities\<close>

subsection \<open>Compress\<close>

text \<open>
  \<^verbatim>\<open>for i := 0; i < n; i += 1 { if selectors[i] > 0 { results = append(results, data[i]) } }\<close>
\<close>

function compress_loop :: "int list \<Rightarrow> int list \<Rightarrow> nat \<Rightarrow> nat \<Rightarrow> int list \<Rightarrow> panic + int list" where
  "compress_loop data selectors n i results =
     (if i < n then
        (case index selectors i of
           Inl e \<Rightarrow> Inl e
         | Inr s \<Rightarrow>
             if s > 0 then
               (case index data i of
                  Inl e \<Rightarrow> Inl e
                | Inr d \<Rightarrow> compress_loop data selectors n (i + 1) (results @ [d]))
             else compress_loop data selectors n (i + 1) results)
      else Inr results)"
  by pat_completeness auto
termination
  by (relation "measure (\<lambda>(data, selectors, n, i, results). n - i)") auto

declare compress_loop.simps [simp del]

definition Compress :: "int list \<Rightarrow> int list \<Rightarrow> panic + int list" where
  "Compress data selectors =
     (let n = length data;
          n = (if length selectors < n then length selectors else n)
      in compress_loop data selectors n 0 [])"

subsection \<open>DropWhile and TakeWhile\<close>

text \<open>
  A parameter of type \<^verbatim>\<open>func(int) bool\<close> may be \<^verbatim>\<open>nil\<close>: it is an optional
  function, \<open>None\<close> for \<^verbatim>\<open>nil\<close>. A \<^verbatim>\<open>range\<close> loop over a slice is a recursion
  over the list; the flag \<^verbatim>\<open>drop\<close> of DropWhile is threaded through it
  (as \<open>dropping\<close>, since \<open>drop\<close> is a list function of HOL).
\<close>

fun dropwhile_loop :: "(int \<Rightarrow> bool) \<Rightarrow> bool \<Rightarrow> int list \<Rightarrow> int list \<Rightarrow> int list" where
  "dropwhile_loop predicate dropping [] results = results"
| "dropwhile_loop predicate dropping (v # iterable) results =
     (if dropping \<and> predicate v then dropwhile_loop predicate dropping iterable results
      else dropwhile_loop predicate False iterable (results @ [v]))"

definition DropWhile :: "(int \<Rightarrow> bool) option \<Rightarrow> int list \<Rightarrow> int list" where
  "DropWhile predicate iterable =
     (case predicate of
        Some p \<Rightarrow> dropwhile_loop p True iterable []
      | None \<Rightarrow> [])"

fun takewhile_loop :: "(int \<Rightarrow> bool) \<Rightarrow> int list \<Rightarrow> int list \<Rightarrow> int list" where
  "takewhile_loop predicate [] results = results"
| "takewhile_loop predicate (v # iterable) results =
     (if predicate v then takewhile_loop predicate iterable (results @ [v])
      else results)"

definition TakeWhile :: "(int \<Rightarrow> bool) option \<Rightarrow> int list \<Rightarrow> int list" where
  "TakeWhile predicate iterable =
     (case predicate of
        Some p \<Rightarrow> takewhile_loop p iterable []
      | None \<Rightarrow> [])"

subsection \<open>IFilter and IFilterFalse\<close>

fun ifilter_loop :: "(int \<Rightarrow> bool) \<Rightarrow> int list \<Rightarrow> int list \<Rightarrow> int list" where
  "ifilter_loop keep [] results = results"
| "ifilter_loop keep (v # iterable) results =
     (if keep v then ifilter_loop keep iterable (results @ [v])
      else ifilter_loop keep iterable results)"

definition IFilter :: "(int \<Rightarrow> bool) option \<Rightarrow> int list \<Rightarrow> int list" where
  "IFilter predicate iterable =
     (case predicate of
        Some p \<Rightarrow> ifilter_loop (\<lambda>v. p v) iterable []
      | None \<Rightarrow> ifilter_loop (\<lambda>v. v > 0) iterable [])"

definition IFilterFalse :: "(int \<Rightarrow> bool) option \<Rightarrow> int list \<Rightarrow> int list" where
  "IFilterFalse predicate iterable =
     (case predicate of
        Some p \<Rightarrow> ifilter_loop (\<lambda>v. \<not> p v) iterable []
      | None \<Rightarrow> ifilter_loop (\<lambda>v. \<not> (v > 0)) iterable [])"

subsection \<open>IZipLongest\<close>

text \<open>
  The variadic parameter \<^verbatim>\<open>iterables ...[]int\<close> is a list of slices. The first loop
  finds the longest length, starting from \<^verbatim>\<open>len(iterables[0])\<close> and ranging over
  \<^verbatim>\<open>iterables[1:]\<close>; the inner loop fills one row \<^verbatim>\<open>newresult\<close> of
  \<^verbatim>\<open>len(iterables)\<close> zeros, position \<^verbatim>\<open>j\<close> from the \<^verbatim>\<open>j\<close>-th input.
  The variable \<^verbatim>\<open>size\<close> is \<open>sz\<close> here (\<open>size\<close> is a constant of HOL).
\<close>

fun longest_loop :: "nat \<Rightarrow> int list list \<Rightarrow> nat" where
  "longest_loop sz [] = sz"
| "longest_loop sz (v # vs) =
     longest_loop (if length v > sz then length v else sz) vs"

fun ziplongest_row :: "int \<Rightarrow> nat \<Rightarrow> nat \<Rightarrow> int list list \<Rightarrow> int list \<Rightarrow> panic + int list" where
  "ziplongest_row fillvalue i j [] newresult = Inr newresult"
| "ziplongest_row fillvalue i j (v # vs) newresult =
     (if i < length v then
        (case index v i of
           Inl e \<Rightarrow> Inl e
         | Inr x \<Rightarrow>
             (case store newresult j x of
                Inl e \<Rightarrow> Inl e
              | Inr newresult' \<Rightarrow> ziplongest_row fillvalue i (j + 1) vs newresult'))
      else
        (case store newresult j fillvalue of
           Inl e \<Rightarrow> Inl e
         | Inr newresult' \<Rightarrow> ziplongest_row fillvalue i (j + 1) vs newresult'))"

function ziplongest_loop :: "int \<Rightarrow> int list list \<Rightarrow> nat \<Rightarrow> nat \<Rightarrow> int list list \<Rightarrow> panic + int list list" where
  "ziplongest_loop fillvalue iterables sz i results =
     (if i < sz then
        (case ziplongest_row fillvalue i 0 iterables (replicate (length iterables) 0) of
           Inl e \<Rightarrow> Inl e
         | Inr newresult \<Rightarrow>
             ziplongest_loop fillvalue iterables sz (i + 1) (results @ [newresult]))
      else Inr results)"
  by pat_completeness auto
termination
  by (relation "measure (\<lambda>(fillvalue, iterables, sz, i, results). sz - i)") auto

declare ziplongest_loop.simps [simp del]

definition IZipLongest :: "int \<Rightarrow> int list list \<Rightarrow> panic + int list list" where
  "IZipLongest fillvalue iterables =
     (if length iterables = 0 then Inr []
      else
        (case index iterables 0 of
           Inl e \<Rightarrow> Inl e
         | Inr first \<Rightarrow>
             ziplongest_loop fillvalue iterables
               (longest_loop (length first) (drop 1 iterables)) 0 []))"


subsection \<open>Count\<close>

text \<open>
  Count is the one function that does arithmetic on its arguments. Go's \<^verbatim>\<open>int\<close> is a
  fixed-width two's complement integer whose \<^verbatim>\<open>+\<close>, \<^verbatim>\<open>-\<close> and \<^verbatim>\<open>*\<close> wrap around
  silently; it has 64 bits on the usual targets (amd64, arm64). A value of type
  \<^verbatim>\<open>int\<close> is an \<^typ>\<open>int\<close> in the range \<open>int64\<close>, and every arithmetic result is
  brought back into that range by \<open>wrap64\<close>.

  The loop \<^verbatim>\<open>for i := start; (step > 0 && i < stop) || (step < 0 && i > stop); i += step\<close>
  has no bound that a measure could use once \<^verbatim>\<open>i += step\<close> wraps, so it is a partial
  function: \<open>None\<close> stands for a loop that never ends.
\<close>

definition int64 :: "int \<Rightarrow> bool" where
  "int64 x = (- (2 ^ 63) \<le> x \<and> x < 2 ^ 63)"

definition wrap64 :: "int \<Rightarrow> int" where
  "wrap64 x = (x + 2 ^ 63) mod 2 ^ 64 - 2 ^ 63"

partial_function (option) count_loop :: "int \<Rightarrow> int \<Rightarrow> int \<Rightarrow> int list \<Rightarrow> int list option" where
  "count_loop i stop step results =
     (if (step > 0 \<and> i < stop) \<or> (step < 0 \<and> i > stop)
      then count_loop (wrap64 (i + step)) stop step (results @ [i])
      else Some results)"

declare count_loop.simps [code]

definition Count :: "int \<Rightarrow> int \<Rightarrow> int \<Rightarrow> int list option" where
  "Count start stop step =
     (if wrap64 (step * wrap64 (stop - start)) \<le> 0 then Some []
      else count_loop start stop step [])"

section \<open>The combinatorial generators\<close>

text \<open>
  The three generators run an outer loop without a bound (\<^verbatim>\<open>for { ... }\<close>, or
  \<^verbatim>\<open>for n > 0 { ... }\<close> with \<^verbatim>\<open>n\<close> never changed) that is left by a \<^verbatim>\<open>return\<close>
  only. The outer loops are partial functions into \<open>option\<close>: \<open>None\<close> is a loop that
  never returns, \<open>Some (Inl p)\<close> a panic, \<open>Some (Inr results)\<close> the returned slice.

  The inner scans count \<^verbatim>\<open>i\<close> down from the last position to \<open>-1\<close>. They recurse on
  \<open>i + 1\<close>, a \<^typ>\<open>nat\<close>, and return the value of \<open>i + 1\<close> at which they stopped:
  \<open>0\<close> is the source's \<^verbatim>\<open>i < 0\<close>.
\<close>

subsection \<open>Filling a result tuple\<close>

text \<open>
  All of \<^verbatim>\<open>for i, el := range indices[:r] { result[i] = pool[el] }\<close>,
  \<^verbatim>\<open>for k := 0; k < r; k += 1 { result[k] = pool[indices[k]] }\<close> and
  \<^verbatim>\<open>for i = 0; i < len(indices); i += 1 { result[i] = pool[indices[i]] }\<close>
  fill a fresh \<^verbatim>\<open>result := make([]int, r)\<close> from the positions held in \<^verbatim>\<open>indices\<close>.
  The loop takes its bound as a parameter; \<open>fill_result\<close> is the loop with the bound \<open>r\<close>.
\<close>

function fill_loop :: "int list \<Rightarrow> nat list \<Rightarrow> nat \<Rightarrow> nat \<Rightarrow> int list \<Rightarrow> panic + int list" where
  "fill_loop pool indices r k result =
     (if k < r then
        (case index indices k of
           Inl e \<Rightarrow> Inl e
         | Inr el \<Rightarrow>
             (case index pool el of
                Inl e \<Rightarrow> Inl e
              | Inr x \<Rightarrow>
                  (case store result k x of
                     Inl e \<Rightarrow> Inl e
                   | Inr result' \<Rightarrow> fill_loop pool indices r (k + 1) result')))
      else Inr result)"
  by pat_completeness auto
termination
  by (relation "measure (\<lambda>(pool, indices, r, k, result). r - k)") auto

declare fill_loop.simps [simp del]

definition fill_result :: "int list \<Rightarrow> nat list \<Rightarrow> nat \<Rightarrow> panic + int list" where
  "fill_result pool indices r = fill_loop pool indices r 0 (replicate r 0)"

subsection \<open>Product\<close>

text \<open>
  The first loop of Product, \<^verbatim>\<open>for i := range result\<close>, returns \<^verbatim>\<open>nil\<close> from the
  whole function at the first empty pool (\<open>Inr None\<close> here) and otherwise leaves the
  first element of each pool in \<^verbatim>\<open>result\<close>.
\<close>

function product_init :: "int list list \<Rightarrow> nat \<Rightarrow> int list \<Rightarrow> panic + int list option" where
  "product_init pools i result =
     (if i < length result then
        (case index pools i of
           Inl e \<Rightarrow> Inl e
         | Inr pool \<Rightarrow>
             if length pool = 0 then Inr None
             else
               (case index pool 0 of
                  Inl e \<Rightarrow> Inl e
                | Inr x \<Rightarrow> product_init pools (i + 1) (result[i := x])))
      else Inr (Some result))"
  by pat_completeness auto
termination
  by (relation "measure (\<lambda>(pools, i, result). length result - i)") auto

declare product_init.simps [simp del]

text \<open>
  The scan \<^verbatim>\<open>for ; i >= 0; i -= 1\<close> advances the odometer: it adds one to
  \<^verbatim>\<open>indices[i]\<close>; on reaching \<^verbatim>\<open>len(pool)\<close> it resets the position and carries on to
  the left, otherwise it stops (\<^verbatim>\<open>break\<close>).
\<close>

fun product_scan :: "int list list \<Rightarrow> nat \<Rightarrow> nat list \<Rightarrow> int list \<Rightarrow> panic + (nat \<times> nat list \<times> int list)" where
  "product_scan pools 0 indices result = Inr (0, indices, result)"
| "product_scan pools (Suc i) indices result =
     (case index pools i of
        Inl e \<Rightarrow> Inl e
      | Inr pool \<Rightarrow>
          (case index indices i of
             Inl e \<Rightarrow> Inl e
           | Inr c \<Rightarrow>
               if c + 1 = length pool then
                 (case index pool 0 of
                    Inl e \<Rightarrow> Inl e
                  | Inr x \<Rightarrow>
                      (case store result i x of
                         Inl e \<Rightarrow> Inl e
                       | Inr result' \<Rightarrow> product_scan pools i (indices[i := 0]) result'))
               else
                 (case index pool (c + 1) of
                    Inl e \<Rightarrow> Inl e
                  | Inr x \<Rightarrow>
                      (case store result i x of
                         Inl e \<Rightarrow> Inl e
                       | Inr result' \<Rightarrow> Inr (Suc i, indices[i := c + 1], result')))))"

text \<open>
  \<^verbatim>\<open>results := [][]int{result}\<close> puts the slice \<^verbatim>\<open>result\<close> itself, not a copy, at
  position 0 of \<^verbatim>\<open>results\<close>: both share one backing array, and every later
  \<^verbatim>\<open>result[i] = ...\<close> of the scan is seen through \<^verbatim>\<open>results[0]\<close>. All later tuples
  are copies (\<^verbatim>\<open>copy(newresult, result)\<close>). The loop therefore carries the tuples
  appended so far, and the returned slice is the final content of \<^verbatim>\<open>result\<close> followed
  by them.
\<close>

partial_function (option) product_loop ::
    "int list list \<Rightarrow> nat list \<Rightarrow> int list \<Rightarrow> int list list \<Rightarrow> (panic + int list list) option" where
  "product_loop pools indices result appended =
     (case product_scan pools (length pools) indices result of
        Inl e \<Rightarrow> Some (Inl e)
      | Inr (k, indices', result') \<Rightarrow>
          if k = 0 then Some (Inr (result' # appended))
          else product_loop pools indices' result' (appended @ [result']))"

declare product_loop.simps [code]

definition Product :: "int list list \<Rightarrow> (panic + int list list) option" where
  "Product args =
     (let pools = args;
          npools = length pools;
          indices = replicate npools 0
      in case product_init pools 0 (replicate npools 0) of
           Inl e \<Rightarrow> Some (Inl e)
         | Inr None \<Rightarrow> Some (Inr [])
         | Inr (Some result) \<Rightarrow> product_loop pools indices result [])"

subsection \<open>Permutations\<close>

text \<open>
  The counters in \<^verbatim>\<open>cycles\<close> are decremented and subtracted from \<^verbatim>\<open>n\<close>, so they are
  kept as \<^typ>\<open>int\<close>; the position \<^verbatim>\<open>n-j\<close> computed from them is checked against the
  slice on both sides.
\<close>

definition swap :: "nat list \<Rightarrow> nat \<Rightarrow> int \<Rightarrow> panic + nat list" where
  \<comment> \<open>\<^verbatim>\<open>indices[i], indices[p] = indices[p], indices[i]\<close>\<close>
  "swap indices i p =
     (if i < length indices \<and> 0 \<le> p \<and> p < int (length indices)
      then Inr (indices[i := indices ! nat p, nat p := indices ! i])
      else Inl IndexOutOfRange)"

text \<open>\<^verbatim>\<open>for j := i; j < n-1; j += 1 { indices[j] = indices[j+1] }\<close>\<close>

function shift_loop :: "nat list \<Rightarrow> nat \<Rightarrow> nat \<Rightarrow> panic + nat list" where
  "shift_loop indices n j =
     (if j + 1 < n then
        (case index indices (j + 1) of
           Inl e \<Rightarrow> Inl e
         | Inr x \<Rightarrow>
             (case store indices j x of
                Inl e \<Rightarrow> Inl e
              | Inr indices' \<Rightarrow> shift_loop indices' n (j + 1)))
      else Inr indices)"
  by pat_completeness auto
termination
  by (relation "measure (\<lambda>(indices, n, j). n - j)") auto

declare shift_loop.simps [simp del]

definition rotate_left :: "nat list \<Rightarrow> nat \<Rightarrow> nat \<Rightarrow> panic + nat list" where
  \<comment> \<open>\<^verbatim>\<open>index := indices[i]\<close>, the shifting loop, \<^verbatim>\<open>indices[n-1] = index\<close> (with \<open>n > 0\<close>)\<close>
  "rotate_left indices n i =
     (case index indices i of
        Inl e \<Rightarrow> Inl e
      | Inr x \<Rightarrow>
          (case shift_loop indices n i of
             Inl e \<Rightarrow> Inl e
           | Inr indices' \<Rightarrow> store indices' (n - 1) x))"

fun perm_scan ::
    "int list \<Rightarrow> nat \<Rightarrow> nat \<Rightarrow> nat \<Rightarrow> nat list \<Rightarrow> int list \<Rightarrow> int list list
      \<Rightarrow> panic + (nat \<times> nat list \<times> int list \<times> int list list)" where
  "perm_scan pool n r 0 indices cycles results = Inr (0, indices, cycles, results)"
| "perm_scan pool n r (Suc i) indices cycles results =
     (case index cycles i of
        Inl e \<Rightarrow> Inl e
      | Inr c \<Rightarrow>
          if c - 1 = 0 then
            (case rotate_left indices n i of
               Inl e \<Rightarrow> Inl e
             | Inr indices' \<Rightarrow>
                 perm_scan pool n r i indices' (cycles[i := int n - int i]) results)
          else
            (let j = c - 1 in
             case swap indices i (int n - j) of
               Inl e \<Rightarrow> Inl e
             | Inr indices' \<Rightarrow>
                 (case fill_result pool indices' r of
                    Inl e \<Rightarrow> Inl e
                  | Inr result \<Rightarrow> Inr (Suc i, indices', cycles[i := j], results @ [result]))))"

partial_function (option) perm_loop ::
    "int list \<Rightarrow> nat \<Rightarrow> nat \<Rightarrow> nat list \<Rightarrow> int list \<Rightarrow> int list list
      \<Rightarrow> (panic + int list list) option" where
  "perm_loop pool n r indices cycles results =
     (if n > 0 then
        (case perm_scan pool n r r indices cycles results of
           Inl e \<Rightarrow> Some (Inl e)
         | Inr (k, indices', cycles', results') \<Rightarrow>
             if k = 0 then Some (Inr results')
             else perm_loop pool n r indices' cycles' results')
      else Some (Inr []))"

declare perm_loop.simps [code]

text \<open>
  \<^verbatim>\<open>r\<close> is an \<^verbatim>\<open>int\<close> parameter. The guard \<^verbatim>\<open>r > n || r == 0\<close> lets a negative
  \<^verbatim>\<open>r\<close> through, and \<^verbatim>\<open>make([]int, r)\<close> then panics. The two initial loops set
  \<^verbatim>\<open>indices[i] = i\<close> and \<^verbatim>\<open>cycles[i] = n - i\<close> for every position.
\<close>

definition Permutations :: "int list \<Rightarrow> int \<Rightarrow> (panic + int list list) option" where
  "Permutations iterable r =
     (let pool = iterable;
          n = length pool
      in if r > int n \<or> r = 0 then Some (Inr [])
         else if r < 0 then Some (Inl MakeSliceLenOutOfRange)
         else
           (let indices = [0..<n];
                cycles = map (\<lambda>i. int n - int i) [0..<nat r]
            in case fill_result pool indices (nat r) of
                 Inl e \<Rightarrow> Some (Inl e)
               | Inr result \<Rightarrow> perm_loop pool n (nat r) indices cycles [result]))"

subsection \<open>Combinations\<close>

text \<open>\<^verbatim>\<open>for ; i >= 0 && indices[i] == i+n-r; i -= 1 { }\<close>\<close>

fun comb_scan :: "nat list \<Rightarrow> nat \<Rightarrow> nat \<Rightarrow> nat \<Rightarrow> panic + nat" where
  "comb_scan indices n r 0 = Inr 0"
| "comb_scan indices n r (Suc i) =
     (case index indices i of
        Inl e \<Rightarrow> Inl e
      | Inr c \<Rightarrow>
          if int c = int i + int n - int r then comb_scan indices n r i
          else Inr (Suc i))"

text \<open>\<^verbatim>\<open>for j := i + 1; j < r; j += 1 { indices[j] = indices[j-1] + 1 }\<close>, with \<open>j > 0\<close>\<close>

function comb_reset :: "nat list \<Rightarrow> nat \<Rightarrow> nat \<Rightarrow> panic + nat list" where
  "comb_reset indices r j =
     (if j < r then
        (case index indices (j - 1) of
           Inl e \<Rightarrow> Inl e
         | Inr c \<Rightarrow>
             (case store indices j (c + 1) of
                Inl e \<Rightarrow> Inl e
              | Inr indices' \<Rightarrow> comb_reset indices' r (j + 1)))
      else Inr indices)"
  by pat_completeness auto
termination
  by (relation "measure (\<lambda>(indices, r, j). r - j)") auto

declare comb_reset.simps [simp del]

partial_function (option) comb_loop ::
    "int list \<Rightarrow> nat \<Rightarrow> nat \<Rightarrow> nat list \<Rightarrow> int list list \<Rightarrow> (panic + int list list) option" where
  "comb_loop pool n r indices results =
     (case comb_scan indices n r r of
        Inl e \<Rightarrow> Some (Inl e)
      | Inr k \<Rightarrow>
          if k = 0 then Some (Inr results)
          else
            (let i = k - 1 in
             case index indices i of
               Inl e \<Rightarrow> Some (Inl e)
             | Inr c \<Rightarrow>
                 (case comb_reset (indices[i := c + 1]) r (i + 1) of
                    Inl e \<Rightarrow> Some (Inl e)
                  | Inr indices' \<Rightarrow>
                      (case fill_loop pool indices' (length indices') 0 (replicate r 0) of
                         Inl e \<Rightarrow> Some (Inl e)
                       | Inr result \<Rightarrow> comb_loop pool n r indices' (results @ [result])))))"

declare comb_loop.simps [code]

definition Combinations :: "int list \<Rightarrow> int \<Rightarrow> (panic + int list list) option" where
  "Combinations iterable r =
     (let pool = iterable;
          n = length pool
      in if r > int n \<or> r = 0 then Some (Inr [])
         else if r < 0 then Some (Inl MakeSliceLenOutOfRange)
         else
           (let indices = [0..<nat r]
            in case fill_result pool indices (nat r) of
                 Inl e \<Rightarrow> Some (Inl e)
               | Inr result \<Rightarrow> comb_loop pool n (nat r) indices [result]))"


section \<open>Notions of the specification\<close>

text \<open>
  A value lies before \<open>stop\<close> in the direction of \<open>step\<close>: below it when counting up,
  above it when counting down.
\<close>

definition before_stop :: "int \<Rightarrow> int \<Rightarrow> int \<Rightarrow> bool" where
  "before_stop stop step x = ((0 < step \<and> x < stop) \<or> (step < 0 \<and> stop < x))"

text \<open>
  The order of a mixed-radix odometer over the radices \<open>lens\<close>: the digits of the number
  \<open>k\<close>, the last digit being the least significant one; the tuple that a list of
  positions picks from a list of pools; and the list of all tuples in this order.
\<close>

definition odometer_digits :: "nat list \<Rightarrow> nat \<Rightarrow> nat list" where
  "odometer_digits lens k =
     map (\<lambda>j. (k div prod_list (drop (Suc j) lens)) mod (lens ! j)) [0..<length lens]"

definition pick :: "'a list list \<Rightarrow> nat list \<Rightarrow> 'a list" where
  "pick pools idx = map (\<lambda>(pool, c). pool ! c) (zip pools idx)"

definition odometer :: "'a list list \<Rightarrow> 'a list list" where
  "odometer pools =
     map (\<lambda>k. pick pools (odometer_digits (map length pools) k))
       [0..<prod_list (map length pools)]"

text \<open>
  The lexicographic order of position sequences, comparing positions from left to
  right; the position sequences of the combinations of \<open>r\<close> out of \<open>n\<close> positions; and
  the sequence that follows \<open>c\<close> when position \<open>i\<close> is the last one that can still grow.
\<close>

definition lex_before :: "nat list \<Rightarrow> nat list \<Rightarrow> bool" where
  "lex_before a b =
     (\<exists>p \<in> {..<min (length a) (length b)}. take p a = take p b \<and> a ! p < b ! p)"

definition comb_positions :: "nat \<Rightarrow> nat \<Rightarrow> nat list set" where
  "comb_positions n r = {c. length c = r \<and> sorted_wrt (<) c \<and> set c \<subseteq> {..<n}}"

definition next_comb :: "nat list \<Rightarrow> nat \<Rightarrow> nat list" where
  "next_comb c i = take i c @ map (\<lambda>m. c ! i + 1 + (m - i)) [i..<length c]"

text \<open>
  The state of Permutations is a function of a mixed-radix number with the radices
  \<open>n, n - 1, ..., n - r + 1\<close>: digit \<open>j\<close> is \<open>n - j - cycles[j]\<close>, and \<open>indices\<close> is got
  from \<open>[0, ..., n - 1]\<close> by taking, digit after digit, the element at the position the
  digit names out of what is left (\<open>decode\<close>). \<open>picks s r\<close> lists the arrangements of
  \<open>r\<close> elements of \<open>s\<close>, first element first.
\<close>

definition remove_nth :: "nat \<Rightarrow> 'a list \<Rightarrow> 'a list" where
  "remove_nth d s = take d s @ drop (Suc d) s"

fun decode :: "'a list \<Rightarrow> nat list \<Rightarrow> 'a list" where
  "decode s [] = s"
| "decode s (d # ds) = s ! d # decode (remove_nth d s) ds"

fun picks :: "'a list \<Rightarrow> nat \<Rightarrow> 'a list list" where
  "picks s 0 = [[]]"
| "picks s (Suc r) =
     concat (map (\<lambda>d. map (Cons (s ! d)) (picks (remove_nth d s) r)) [0..<length s])"

fun valid_digits :: "nat \<Rightarrow> nat list \<Rightarrow> bool" where
  "valid_digits m [] = True"
| "valid_digits m (d # ds) = (d < m \<and> valid_digits (m - 1) ds)"

definition perm_radices :: "nat \<Rightarrow> nat \<Rightarrow> nat list" where
  "perm_radices n i = map (\<lambda>j. n - j) [0..<i]"

definition perm_indices :: "nat \<Rightarrow> nat \<Rightarrow> nat list \<Rightarrow> nat list" where
  "perm_indices n r ds = decode [0..<n] (ds @ replicate (r - length ds) 0)"

definition perm_cycles :: "nat \<Rightarrow> nat \<Rightarrow> nat list \<Rightarrow> int list" where
  "perm_cycles n r ds =
     map (\<lambda>j. int n - int j - int ((ds @ replicate (r - length ds) 0) ! j)) [0..<r]"

section \<open>Properties of the single-pass utilities\<close>

lemma index_in_range: "i < length xs \<Longrightarrow> index xs i = Inr (xs ! i)"
  by (simp add: index_def)

lemma store_in_range: "i < length xs \<Longrightarrow> store xs i v = Inr (xs[i := v])"
  by (simp add: store_def)

lemma compress_loop_correct:
  "n \<le> length data \<Longrightarrow> n \<le> length selectors \<Longrightarrow> i \<le> n \<Longrightarrow>
   compress_loop data selectors n i results =
     Inr (results @ map (\<lambda>k. data ! k) (filter (\<lambda>k. 0 < selectors ! k) [i..<n]))"
proof (induction data selectors n i results rule: compress_loop.induct)
  case (1 data selectors n i results)
  show ?case
  proof (cases "i < n")
    case True
    then have up: "[i..<n] = i # [i + 1..<n]"
      by (simp add: upt_conv_Cons)
    from True "1.prems" have r: "index selectors i = Inr (selectors ! i)" "index data i = Inr (data ! i)"
      by (simp_all add: index_in_range)
    show ?thesis
    proof (cases "0 < selectors ! i")
      case pos: True
      have "compress_loop data selectors n i results = compress_loop data selectors n (i + 1) (results @ [data ! i])"
        using True pos r by (subst compress_loop.simps) simp
      also have "\<dots> = Inr ((results @ [data ! i]) @ map (\<lambda>k. data ! k) (filter (\<lambda>k. 0 < selectors ! k) [i + 1..<n]))"
        using True pos r "1.prems" by (intro "1.IH"(1)) auto
      finally show ?thesis using pos up by simp
    next
      case npos: False
      have "compress_loop data selectors n i results = compress_loop data selectors n (i + 1) results"
        using True npos r by (subst compress_loop.simps) simp
      also have "\<dots> = Inr (results @ map (\<lambda>k. data ! k) (filter (\<lambda>k. 0 < selectors ! k) [i + 1..<n]))"
        using True npos r "1.prems" by (intro "1.IH"(2)) auto
      finally show ?thesis using npos up by simp
    qed
  next
    case False
    then show ?thesis by (subst compress_loop.simps) simp
  qed
qed

text \<open>
  Claim C7. For every data and selector slice, Compress returns without a panic, and
  returns, in order, exactly the elements \<open>data[i]\<close> with \<open>i\<close> below the length of
  the shorter input and \<open>selectors[i] > 0\<close>; and Compress([1,2,3], [0,1,1]) = [2,3].
\<close>

theorem Compress_correct:
  "Compress data selectors =
     Inr (map (\<lambda>i. data ! i)
            (filter (\<lambda>i. 0 < selectors ! i) [0..<min (length data) (length selectors)]))
   \<and> Compress [1, 2, 3] [0, 1, 1] = Inr [2, 3]"
proof -
  have g: "Compress d s =
     Inr (map (\<lambda>i. d ! i) (filter (\<lambda>i. 0 < s ! i) [0..<min (length d) (length s)]))" for d s
    unfolding Compress_def Let_def
    by (subst compress_loop_correct) (auto simp: min_def)
  have "Compress [1, 2, 3] [0, 1, 1] = Inr [2, 3]"
    by (simp add: g upt_rec)
  with g show ?thesis by blast
qed

theorem Compress_correct_witness:
  "Compress [5, 6, 7, 8] [1, 0, 2] = Inr [5, 7]"
  using Compress_correct [of "[5, 6, 7, 8]" "[1, 0, 2]"] by (simp add: upt_rec)

lemma ifilter_loop_filter: "ifilter_loop keep xs results = results @ filter keep xs"
  by (induction xs arbitrary: results) simp_all

text \<open>
  Claim C9. With a nil predicate IFilter returns the elements greater than 0 and
  IFilterFalse the elements less than or equal to 0, both in order: the same results
  as with the test "value > 0" passed as the predicate.
\<close>

theorem IFilter_nil_predicate:
  "IFilter None s = filter (\<lambda>v. v > 0) s
   \<and> IFilterFalse None s = filter (\<lambda>v. v \<le> 0) s
   \<and> IFilter None s = IFilter (Some (\<lambda>v. v > 0)) s
   \<and> IFilterFalse None s = IFilterFalse (Some (\<lambda>v. v > 0)) s"
  by (simp add: IFilter_def IFilterFalse_def ifilter_loop_filter not_less)

theorem IFilter_nil_predicate_witness:
  "IFilter None [-2, -1, 0, 1, 2] = [1, 2] \<and> IFilterFalse None [-2, -1, 0, 1, 2] = [-2, -1, 0]"
  using IFilter_nil_predicate [of "[-2, -1, 0, 1, 2]"] by simp

text \<open>
  Claim C10. With a nil predicate both DropWhile and TakeWhile return the empty slice,
  whatever the input; so DropWhile does not return a non-empty input unchanged.
\<close>

theorem nil_predicate_while:
  "DropWhile None s = [] \<and> TakeWhile None s = [] \<and> (s \<noteq> [] \<longrightarrow> DropWhile None s \<noteq> s)"
  by (simp add: DropWhile_def TakeWhile_def)

theorem nil_predicate_while_witness:
  "DropWhile None [1, 3, 2] = [] \<and> TakeWhile None [1, 3, 2] = [] \<and> [1, 3, 2] \<noteq> ([] :: int list)
   \<and> DropWhile None [1, 3, 2] \<noteq> [1, 3, 2]"
  using nil_predicate_while [of "[1, 3, 2]"] by simp

lemma longest_loop_ge: "sz \<le> longest_loop sz vs \<and> (\<forall>v \<in> set vs. length v \<le> longest_loop sz vs)"
proof (induction vs arbitrary: sz)
  case Nil
  show ?case by simp
next
  case (Cons v vs)
  from Cons.IH [of "if length v > sz then length v else sz"]
  show ?case by (auto split: if_splits)
qed

lemma longest_loop_in: "longest_loop sz vs \<in> insert sz (length ` set vs)"
proof (induction vs arbitrary: sz)
  case Nil
  show ?case by simp
next
  case (Cons v vs)
  from Cons.IH [of "if length v > sz then length v else sz"]
  show ?case by (auto split: if_splits)
qed

lemma longest_loop_Max: "longest_loop sz vs = Max (insert sz (length ` set vs))"
proof (rule sym, rule Max_eqI)
  show "finite (insert sz (length ` set vs))" by simp
  show "longest_loop sz vs \<in> insert sz (length ` set vs)" by (rule longest_loop_in)
  fix y assume "y \<in> insert sz (length ` set vs)"
  then show "y \<le> longest_loop sz vs" using longest_loop_ge [of sz vs] by auto
qed

lemma ziplongest_row_correct:
  "j + length vs = length newresult \<Longrightarrow>
   ziplongest_row fillvalue i j vs newresult =
     Inr (take j newresult @ map (\<lambda>v. if i < length v then v ! i else fillvalue) vs)"
proof (induction vs arbitrary: j newresult)
  case Nil
  then show ?case by simp
next
  case (Cons v vs)
  then have j: "j < length newresult" by simp
  have t: "take (Suc j) (newresult[j := x]) = take j newresult @ [x]" for x
    using j by (simp add: take_Suc_conv_app_nth)
  show ?case using Cons.prems j
    by (simp add: index_in_range store_in_range Cons.IH t)
qed

lemma ziplongest_loop_correct:
  "i \<le> sz \<Longrightarrow>
   ziplongest_loop fillvalue iterables sz i results =
     Inr (results @ map (\<lambda>i. map (\<lambda>v. if i < length v then v ! i else fillvalue) iterables) [i..<sz])"
proof (induction fillvalue iterables sz i results rule: ziplongest_loop.induct)
  case (1 fillvalue iterables sz i results)
  have row: "ziplongest_row fillvalue i 0 iterables (replicate (length iterables) 0) =
      Inr (map (\<lambda>v. if i < length v then v ! i else fillvalue) iterables)"
    by (subst ziplongest_row_correct) simp_all
  show ?case
  proof (cases "i < sz")
    case True
    then have up: "[i..<sz] = i # [i + 1..<sz]"
      by (simp add: upt_conv_Cons)
    have "ziplongest_loop fillvalue iterables sz i results =
        ziplongest_loop fillvalue iterables sz (i + 1)
          (results @ [map (\<lambda>v. if i < length v then v ! i else fillvalue) iterables])"
      using True row by (subst ziplongest_loop.simps) simp
    also have "\<dots> = Inr ((results @ [map (\<lambda>v. if i < length v then v ! i else fillvalue) iterables])
         @ map (\<lambda>i. map (\<lambda>v. if i < length v then v ! i else fillvalue) iterables) [i + 1..<sz])"
      using True row by (intro "1.IH") auto
    finally show ?thesis using up by simp
  next
    case False
    then show ?thesis by (subst ziplongest_loop.simps) simp
  qed
qed

lemma IZipLongest_eq:
  assumes "iterables \<noteq> []"
  shows "IZipLongest fillvalue iterables =
     Inr (map (\<lambda>i. map (\<lambda>v. if i < length v then v ! i else fillvalue) iterables)
            [0..<Max (length ` set iterables)])"
proof -
  obtain v vs where it: "iterables = v # vs"
    using assms by (cases iterables) auto
  have "longest_loop (length v) vs = Max (length ` set iterables)"
    unfolding longest_loop_Max it by simp
  then have "ziplongest_loop fillvalue iterables (longest_loop (length v) vs) 0 [] =
     Inr (map (\<lambda>i. map (\<lambda>v. if i < length v then v ! i else fillvalue) iterables)
            [0..<Max (length ` set iterables)])"
    by (simp only: ziplongest_loop_correct [OF le0] append_Nil)
  moreover have "IZipLongest fillvalue iterables =
      ziplongest_loop fillvalue iterables (longest_loop (length v) vs) 0 []"
    unfolding IZipLongest_def it by (simp add: index_def)
  ultimately show ?thesis by simp
qed

text \<open>
  Claim C8. For a non-empty list of inputs IZipLongest returns without a panic; the
  result has as many rows as the longest input has elements, every row has one component
  per input, and component \<open>j\<close> of row \<open>i\<close> is element \<open>i\<close> of input \<open>j\<close> where that
  input is long enough and the fill value otherwise.
\<close>

theorem IZipLongest_correct:
  "iterables \<noteq> [] \<Longrightarrow>
   \<exists>rows. IZipLongest fillvalue iterables = Inr rows
     \<and> length rows = Max (length ` set iterables)
     \<and> (\<forall>i < length rows. length (rows ! i) = length iterables
          \<and> (\<forall>j < length iterables.
                rows ! i ! j =
                  (if i < length (iterables ! j) then iterables ! j ! i else fillvalue)))"
  by (simp add: IZipLongest_eq)

lemma IZipLongest_example:
  "IZipLongest 0 [[10, 20, 30], [1, 2]] = Inr [[10, 1], [20, 2], [30, 0]]"
  by (simp add: IZipLongest_eq upt_rec)

theorem IZipLongest_correct_witness:
  "[[10, 20, 30], [1, 2]] \<noteq> ([] :: int list list)
   \<and> (\<exists>rows. IZipLongest 0 [[10, 20, 30], [1, 2]] = Inr rows
     \<and> length rows = Max (length ` set [[10, 20, 30], [1, 2 :: int]])
     \<and> (\<forall>i < length rows. length (rows ! i) = length [[10, 20, 30], [1, 2 :: int]]
          \<and> (\<forall>j < length [[10, 20, 30], [1, 2 :: int]].
                rows ! i ! j =
                  (if i < length ([[10, 20, 30], [1, 2 :: int]] ! j)
                   then [[10, 20, 30], [1, 2]] ! j ! i else 0))))"
proof -
  have ne: "[[10, 20, 30], [1, 2]] \<noteq> ([] :: int list list)" by simp
  show ?thesis
    by (rule conjI [OF ne IZipLongest_correct [OF ne, of 0]])
qed


subsection \<open>Count\<close>

lemma wrap64_id: "int64 x \<Longrightarrow> wrap64 x = x"
  by (simp add: int64_def wrap64_def)

lemma mod_shift_mult:
  "(a * ((b + c) mod m - c) + c) mod m = (a * b + c) mod (m :: int)"
proof -
  have "((b + c) mod m - c) mod m = b mod m"
    by (simp add: mod_simps)
  then have "(a * ((b + c) mod m - c)) mod m = (a * b) mod m"
    by (metis mod_mult_right_eq)
  then show ?thesis
    by (metis mod_add_left_eq)
qed

lemma wrap64_mult_wrap64: "wrap64 (a * wrap64 b) = wrap64 (a * b)"
  unfolding wrap64_def by (simp only: mod_shift_mult)

lemma count_loop_up:
  assumes "0 < step"
  shows "(\<forall>k. i + int k * step < stop \<longrightarrow> int64 (i + (int k + 1) * step)) \<Longrightarrow>
    \<exists>n. count_loop i stop step results = Some (results @ map (\<lambda>k. i + int k * step) [0..<n])
       \<and> (\<forall>k. k < n \<longleftrightarrow> i + int k * step < stop)"
proof (induction "nat (stop - i)" arbitrary: i results rule: less_induct)
  case less
  show ?case
  proof (cases "i < stop")
    case True
    have "int64 (i + step)"
      using True less.prems [rule_format, of 0] by simp
    then have w: "wrap64 (i + step) = i + step" by (rule wrap64_id)
    have "nat (stop - (i + step)) < nat (stop - i)"
      using True assms by simp
    moreover have "\<forall>k. (i + step) + int k * step < stop \<longrightarrow> int64 ((i + step) + (int k + 1) * step)"
    proof (intro allI impI)
      fix k assume "(i + step) + int k * step < stop"
      then have "i + int (Suc k) * step < stop" by (simp add: algebra_simps)
      then have "int64 (i + (int (Suc k) + 1) * step)" using less.prems by blast
      then show "int64 ((i + step) + (int k + 1) * step)" by (simp add: algebra_simps)
    qed
    ultimately obtain n where n:
      "count_loop (i + step) stop step (results @ [i]) =
         Some ((results @ [i]) @ map (\<lambda>k. (i + step) + int k * step) [0..<n])"
      "\<forall>k. k < n \<longleftrightarrow> (i + step) + int k * step < stop"
      using less.hyps [of "i + step" "results @ [i]"] by blast
    have "count_loop i stop step results = count_loop (i + step) stop step (results @ [i])"
      using True assms w by (subst count_loop.simps) simp
    also note n(1)
    also have "(results @ [i]) @ map (\<lambda>k. (i + step) + int k * step) [0..<n]
        = results @ map (\<lambda>k. i + int k * step) [0..<Suc n]"
      unfolding map_upt_Suc by (simp add: algebra_simps)
    finally have a: "count_loop i stop step results = Some (results @ map (\<lambda>k. i + int k * step) [0..<Suc n])" .
    have b: "k < Suc n \<longleftrightarrow> i + int k * step < stop" for k
    proof (cases k)
      case 0
      then show ?thesis using True by simp
    next
      case (Suc k')
      then show ?thesis using n(2) [rule_format, of k'] by (simp add: algebra_simps)
    qed
    from a b show ?thesis by blast
  next
    case False
    have "\<not> i + int k * step < stop" for k
    proof -
      have "0 \<le> int k * step" using assms by simp
      then show ?thesis using False by linarith
    qed
    moreover have "count_loop i stop step results = Some results"
      using False assms by (subst count_loop.simps) simp
    ultimately show ?thesis
      by (intro exI [of _ 0]) simp
  qed
qed

lemma count_loop_down:
  assumes "step < 0"
  shows "(\<forall>k. stop < i + int k * step \<longrightarrow> int64 (i + (int k + 1) * step)) \<Longrightarrow>
    \<exists>n. count_loop i stop step results = Some (results @ map (\<lambda>k. i + int k * step) [0..<n])
       \<and> (\<forall>k. k < n \<longleftrightarrow> stop < i + int k * step)"
proof (induction "nat (i - stop)" arbitrary: i results rule: less_induct)
  case less
  show ?case
  proof (cases "stop < i")
    case True
    have "int64 (i + step)"
      using True less.prems [rule_format, of 0] by simp
    then have w: "wrap64 (i + step) = i + step" by (rule wrap64_id)
    have "nat ((i + step) - stop) < nat (i - stop)"
      using True assms by simp
    moreover have "\<forall>k. stop < (i + step) + int k * step \<longrightarrow> int64 ((i + step) + (int k + 1) * step)"
    proof (intro allI impI)
      fix k assume "stop < (i + step) + int k * step"
      then have "stop < i + int (Suc k) * step" by (simp add: algebra_simps)
      then have "int64 (i + (int (Suc k) + 1) * step)" using less.prems by blast
      then show "int64 ((i + step) + (int k + 1) * step)" by (simp add: algebra_simps)
    qed
    ultimately obtain n where n:
      "count_loop (i + step) stop step (results @ [i]) =
         Some ((results @ [i]) @ map (\<lambda>k. (i + step) + int k * step) [0..<n])"
      "\<forall>k. k < n \<longleftrightarrow> stop < (i + step) + int k * step"
      using less.hyps [of "i + step" "results @ [i]"] by blast
    have "count_loop i stop step results = count_loop (i + step) stop step (results @ [i])"
      using True assms w by (subst count_loop.simps) simp
    also note n(1)
    also have "(results @ [i]) @ map (\<lambda>k. (i + step) + int k * step) [0..<n]
        = results @ map (\<lambda>k. i + int k * step) [0..<Suc n]"
      unfolding map_upt_Suc by (simp add: algebra_simps)
    finally have a: "count_loop i stop step results = Some (results @ map (\<lambda>k. i + int k * step) [0..<Suc n])" .
    have b: "k < Suc n \<longleftrightarrow> stop < i + int k * step" for k
    proof (cases k)
      case 0
      then show ?thesis using True by simp
    next
      case (Suc k')
      then show ?thesis using n(2) [rule_format, of k'] by (simp add: algebra_simps)
    qed
    from a b show ?thesis by blast
  next
    case False
    have "\<not> stop < i + int k * step" for k
    proof -
      have "int k * step \<le> 0" using assms by (simp add: mult_nonneg_nonpos)
      then show ?thesis using False by linarith
    qed
    moreover have "count_loop i stop step results = Some results"
      using False assms by (subst count_loop.simps) simp
    ultimately show ?thesis
      by (intro exI [of _ 0]) simp
  qed
qed

lemma Count_examples:
  "Count 1 10 1 = Some [1, 2, 3, 4, 5, 6, 7, 8, 9]" "Count 10 1 1 = Some []"
  by (simp_all add: Count_def wrap64_def count_loop.simps)

lemma Count_run:
  assumes "int64 (step * (stop - start))"
    and "\<forall>k. before_stop stop step (start + int k * step) \<longrightarrow> int64 (start + (int k + 1) * step)"
  shows "\<exists>n. Count start stop step = Some (map (\<lambda>k. start + int k * step) [0..<n])
     \<and> (\<forall>k. k < n \<longleftrightarrow> before_stop stop step (start + int k * step))
     \<and> (n = 0 \<longleftrightarrow> step * (stop - start) \<le> 0)"
proof -
  have g: "wrap64 (step * wrap64 (stop - start)) = step * (stop - start)"
    using assms(1) by (simp add: wrap64_mult_wrap64 wrap64_id)
  consider (none) "step * (stop - start) \<le> 0" | (up) "0 < step" "start < stop" | (down) "step < 0" "stop < start"
  proof -
    have "step * (stop - start) \<le> 0" if "0 < step" "\<not> start < stop"
      using that by (simp add: mult_nonneg_nonpos)
    moreover have "step * (stop - start) \<le> 0" if "step < 0" "\<not> stop < start"
      using that by (simp add: mult_nonpos_nonneg)
    moreover have "step * (stop - start) \<le> 0" if "step = 0"
      using that by simp
    ultimately show ?thesis
      using that by (cases "step = 0"; cases "0 < step") force+
  qed
  then show ?thesis
  proof cases
    case none
    have "\<not> before_stop stop step (start + int k * step)" for k
    proof
      assume "before_stop stop step (start + int k * step)"
      then consider "0 < step" "start + int k * step < stop" | "step < 0" "stop < start + int k * step"
        unfolding before_stop_def by blast
      then show False
      proof cases
        case 1
        then have "0 \<le> int k * step" by simp
        with 1 have "start < stop" by linarith
        with 1 have "0 < step * (stop - start)" by simp
        with none show False by simp
      next
        case 2
        then have "int k * step \<le> 0" by (simp add: mult_nonneg_nonpos)
        with 2 have "stop < start" by linarith
        with 2 have "0 < step * (stop - start)" by (simp add: mult_neg_neg)
        with none show False by simp
      qed
    qed
    moreover have "Count start stop step = Some []"
      using none g by (simp add: Count_def)
    ultimately show ?thesis using none
      by (intro exI [of _ 0]) simp
  next
    case up
    then have pos: "0 < step * (stop - start)" by simp
    have b: "before_stop stop step x \<longleftrightarrow> x < stop" for x
      using up(1) by (simp add: before_stop_def)
    from count_loop_up [OF up(1), of start stop "[]"] assms(2)
    obtain n where n: "count_loop start stop step [] = Some (map (\<lambda>k. start + int k * step) [0..<n])"
      "\<forall>k. k < n \<longleftrightarrow> start + int k * step < stop"
      unfolding b by auto
    have "Count start stop step = Some (map (\<lambda>k. start + int k * step) [0..<n])"
      using pos g n(1) by (simp add: Count_def)
    moreover have "n \<noteq> 0" using n(2) [rule_format, of 0] up by simp
    then have "n = 0 \<longleftrightarrow> step * (stop - start) \<le> 0" using pos by simp
    moreover have "\<forall>k. k < n \<longleftrightarrow> before_stop stop step (start + int k * step)"
      unfolding b by (rule n(2))
    ultimately show ?thesis by blast
  next
    case down
    then have pos: "0 < step * (stop - start)" by (simp add: mult_neg_neg)
    have b: "before_stop stop step x \<longleftrightarrow> stop < x" for x
      using down(1) by (simp add: before_stop_def)
    from count_loop_down [OF down(1), of stop start "[]"] assms(2)
    obtain n where n: "count_loop start stop step [] = Some (map (\<lambda>k. start + int k * step) [0..<n])"
      "\<forall>k. k < n \<longleftrightarrow> stop < start + int k * step"
      unfolding b by auto
    have "Count start stop step = Some (map (\<lambda>k. start + int k * step) [0..<n])"
      using pos g n(1) by (simp add: Count_def)
    moreover have "n \<noteq> 0" using n(2) [rule_format, of 0] down by simp
    then have "n = 0 \<longleftrightarrow> step * (stop - start) \<le> 0" using pos by simp
    moreover have "\<forall>k. k < n \<longleftrightarrow> before_stop stop step (start + int k * step)"
      unfolding b by (rule n(2))
    ultimately show ?thesis by blast
  qed
qed

text \<open>
  Where the product \<open>step * (stop - start)\<close> stays in the range of \<^verbatim>\<open>int\<close>, and so does
  every sum \<open>i + step\<close> that the loop forms from a value \<open>i\<close> lying before \<open>stop\<close>,
  Count returns the sequence \<open>start, start + step, ...\<close> of exactly the values that lie
  strictly before \<open>stop\<close> in the direction of \<open>step\<close>, and the result is empty exactly when
  \<open>step * (stop - start) \<le> 0\<close>. Count(1, 10, 1) is \<open>[1, ..., 9]\<close> and Count(10, 1, 1) is
  empty.
\<close>

lemma Count_without_overflow:
  assumes "int64 start" "int64 stop" "int64 step"
    and "int64 (step * (stop - start))"
    and "\<forall>k. before_stop stop step (start + int k * step) \<longrightarrow> int64 (start + (int k + 1) * step)"
  shows "(\<exists>n. Count start stop step = Some (map (\<lambda>k. start + int k * step) [0..<n])
       \<and> (\<forall>k. k < n \<longleftrightarrow> before_stop stop step (start + int k * step))
       \<and> (n = 0 \<longleftrightarrow> step * (stop - start) \<le> 0))
     \<and> Count 1 10 1 = Some [1, 2, 3, 4, 5, 6, 7, 8, 9]
     \<and> Count 10 1 1 = Some []"
  using Count_run [OF assms(4,5)] Count_examples by (intro conjI)

lemma Count_without_overflow_example:
  "int64 0 \<and> int64 7 \<and> int64 3 \<and> int64 (3 * (7 - 0))
   \<and> (\<exists>n. Count 0 7 3 = Some (map (\<lambda>k. 0 + int k * 3) [0..<n])
       \<and> (\<forall>k. k < n \<longleftrightarrow> before_stop 7 3 (0 + int k * 3))
       \<and> (n = 0 \<longleftrightarrow> (3 :: int) * (7 - 0) \<le> 0))
   \<and> Count 0 7 3 = Some [0, 3, 6]"
proof -
  have h: "int64 0" "int64 7" "int64 3" "int64 (3 * (7 - 0))"
    by (simp_all add: int64_def)
  have s: "\<forall>k. before_stop 7 3 (0 + int k * 3) \<longrightarrow> int64 (0 + (int k + 1) * 3)"
    by (simp add: before_stop_def int64_def)
  have "Count 0 7 3 = Some [0, 3, 6]"
    by (simp add: Count_def wrap64_def count_loop.simps)
  then show ?thesis
    using h Count_without_overflow [OF h s] by blast
qed

text \<open>
  Claim C6. For every \<open>start\<close>, \<open>stop\<close>, \<open>step\<close>, Count returns the values
  \<open>start, start + step, ...\<close> that lie strictly before \<open>stop\<close>, and is empty exactly when
  \<open>step * (stop - start) \<le> 0\<close>. The code breaks this where its arithmetic wraps around.
  In Count(0, 2^32, 2^32) the product of the guard \<^verbatim>\<open>step*(stop-start) <= 0\<close> wraps to 0
  and the function returns \<^verbatim>\<open>nil\<close>, although the product is positive, 0 lies before
  \<open>stop\<close>, and the loop itself, entered with these arguments, yields \<open>[0]\<close>. The same
  happens in Count(0, 10^10, 10^9), where ten values are due. In
  Count(2^62, 2^62 + 1, 2^62 + 1) the guard is right and the sum \<^verbatim>\<open>i += step\<close> wraps:
  four values come back where only \<open>2^62\<close> lies before \<open>stop\<close>.
\<close>

theorem Count_overflow:
  "int64 0 \<and> int64 (2 ^ 32)
   \<and> (0 :: int) < 2 ^ 32 * (2 ^ 32 - 0) \<and> before_stop (2 ^ 32) (2 ^ 32) 0
   \<and> Count 0 (2 ^ 32) (2 ^ 32) = Some []
   \<and> count_loop 0 (2 ^ 32) (2 ^ 32) [] = Some [0]
   \<and> int64 (10 ^ 10) \<and> int64 (10 ^ 9) \<and> before_stop (10 ^ 10) (10 ^ 9) 0
   \<and> Count 0 (10 ^ 10) (10 ^ 9) = Some []
   \<and> int64 (2 ^ 62) \<and> int64 (2 ^ 62 + 1)
   \<and> \<not> before_stop (2 ^ 62 + 1) (2 ^ 62 + 1) (2 ^ 62 + (2 ^ 62 + 1))
   \<and> Count (2 ^ 62) (2 ^ 62 + 1) (2 ^ 62 + 1)
       = Some [2 ^ 62, - (2 ^ 63) + 1, - (2 ^ 62) + 2, 3]"
  by (simp add: Count_def wrap64_def int64_def before_stop_def count_loop.simps)

section \<open>Degenerate arguments of the generators\<close>

text \<open>
  Claim C4. Product called with no pool at all returns a slice that holds exactly one
  tuple, the empty one.
\<close>

theorem Product_no_pools: "Product [] = Some (Inr [[]])"
  by (simp add: Product_def product_init.simps product_loop.simps)

theorem Product_no_pools_witness:
  "(case Product [] of Some (Inr results) \<Rightarrow> length results = 1 \<and> results ! 0 = [] | _ \<Rightarrow> False)"
  using Product_no_pools by simp

text \<open>
  Claim C5. For a pool of any length \<open>n\<close>, if \<open>r = 0\<close> or \<open>r > n\<close> then Permutations and
  Combinations both return, and return the empty slice: no panic is raised.
\<close>

theorem degenerate_r_empty:
  "r = 0 \<or> r > int (length pool) \<Longrightarrow>
   Permutations pool r = Some (Inr []) \<and> Combinations pool r = Some (Inr [])"
  by (auto simp: Permutations_def Combinations_def)

theorem degenerate_r_empty_witness:
  "((0::int) = 0 \<or> 0 > int (length [1, 2, 3 :: int]))
   \<and> Permutations [1, 2, 3] 0 = Some (Inr []) \<and> Combinations [1, 2, 3] 0 = Some (Inr [])
   \<and> ((4::int) = 0 \<or> 4 > int (length [1, 2, 3 :: int]))
   \<and> Permutations [1, 2, 3] 4 = Some (Inr []) \<and> Combinations [1, 2, 3] 4 = Some (Inr [])
   \<and> Permutations [] 1 = Some (Inr []) \<and> Combinations [] 1 = Some (Inr [])"
proof -
  have a: "(0::int) = 0 \<or> 0 > int (length [1, 2, 3 :: int])" by simp
  have b: "(4::int) = 0 \<or> 4 > int (length [1, 2, 3 :: int])" by simp
  have c: "(1::int) = 0 \<or> 1 > int (length ([] :: int list))" by simp
  show ?thesis
    using a b degenerate_r_empty [OF a] degenerate_r_empty [OF b] degenerate_r_empty [OF c]
    by blast
qed

section \<open>Product enumerates the cartesian product in odometer order\<close>

lemma length_odometer_digits [simp]: "length (odometer_digits lens k) = length lens"
  by (simp add: odometer_digits_def)

lemma odometer_digits_Nil [simp]: "odometer_digits [] k = []"
  by (simp add: odometer_digits_def)

lemma odometer_digits_snoc:
  "odometer_digits (ls @ [l]) k = odometer_digits ls (k div l) @ [k mod l]"
proof -
  have "(k div prod_list (drop (Suc j) (ls @ [l]))) mod ((ls @ [l]) ! j)
      = ((k div l) div prod_list (drop (Suc j) ls)) mod (ls ! j)" if "j < length ls" for j
  proof -
    have "k div (prod_list (drop (Suc j) ls) * l) = (k div l) div prod_list (drop (Suc j) ls)"
      by (simp add: div_mult2_eq mult.commute)
    then show ?thesis using that by (simp add: nth_append)
  qed
  then show ?thesis
    by (simp add: odometer_digits_def)
qed

lemma odometer_digits_Cons:
  "odometer_digits (l # ls) k = (k div prod_list ls) mod l # odometer_digits ls k"
  by (simp add: odometer_digits_def upt_conv_Cons map_Suc_upt [symmetric] del: upt_Suc)

lemma odometer_digits_zero: "odometer_digits lens 0 = replicate (length lens) 0"
  by (simp add: odometer_digits_def map_replicate_const)

lemma odometer_digits_mod:
  "odometer_digits lens (k mod prod_list lens) = odometer_digits lens k"
proof (induction lens arbitrary: k)
  case Nil
  show ?case by simp
next
  case (Cons l ls)
  let ?T = "prod_list ls"
  have a: "(k mod (l * ?T)) div ?T mod l = (k div ?T) mod l"
  proof (cases "?T = 0")
    case True
    then show ?thesis by simp
  next
    case False
    have "k mod (?T * l) = ?T * (k div ?T mod l) + k mod ?T"
      by (rule mod_mult2_eq)
    then have "(k mod (?T * l)) div ?T = k div ?T mod l"
      using False by simp
    then show ?thesis by (simp add: mult.commute)
  qed
  have "odometer_digits ls (k mod (l * ?T)) = odometer_digits ls ((k mod (l * ?T)) mod ?T)"
    by (simp only: Cons.IH)
  also have "(k mod (l * ?T)) mod ?T = k mod ?T"
    by (simp add: mod_mod_cancel)
  also have "odometer_digits ls (k mod ?T) = odometer_digits ls k"
    by (simp only: Cons.IH)
  finally show ?case using a by (simp add: odometer_digits_Cons)
qed

lemma pick_append:
  "length ps = length cs \<Longrightarrow> pick (ps @ qs) (cs @ ds) = pick ps cs @ pick qs ds"
  by (simp add: pick_def)

lemma pick_Cons [simp]: "pick (p # ps) (c # cs) = p ! c # pick ps cs"
  by (simp add: pick_def)

lemma pick_Nil [simp]: "pick [] cs = []"
  by (simp add: pick_def)

lemma length_pick: "length idx = length pools \<Longrightarrow> length (pick pools idx) = length pools"
  by (simp add: pick_def)


lemma product_init_correct:
  "length result = length pools \<Longrightarrow> i \<le> length pools \<Longrightarrow>
   product_init pools i result =
     (if [] \<in> set (drop i pools) then Inr None
      else Inr (Some (take i result @ map (\<lambda>pool. pool ! 0) (drop i pools))))"
proof (induction pools i result rule: product_init.induct)
  case (1 pools i result)
  show ?case
  proof (cases "i < length result")
    case True
    then have i: "i < length pools" using "1.prems" by simp
    then have d: "drop i pools = pools ! i # drop (Suc i) pools"
      by (simp add: Cons_nth_drop_Suc)
    show ?thesis
    proof (cases "pools ! i = []")
      case True
      then show ?thesis using i d \<open>i < length result\<close>
        by (subst product_init.simps) (simp add: index_in_range)
    next
      case False
      have "product_init pools i result = product_init pools (i + 1) (result[i := pools ! i ! 0])"
        using False i \<open>i < length result\<close>
        by (subst product_init.simps) (simp add: index_def)
      also have "\<dots> = (if [] \<in> set (drop (i + 1) pools) then Inr None
          else Inr (Some (take (i + 1) (result[i := pools ! i ! 0])
                 @ map (\<lambda>pool. pool ! 0) (drop (i + 1) pools))))"
      proof (rule "1.IH" [OF \<open>i < length result\<close>])
        show "index pools i = Inr (pools ! i)" using i by (simp add: index_def)
        show "length (pools ! i) \<noteq> 0" using False by simp
        show "index (pools ! i) 0 = Inr (pools ! i ! 0)" using False by (simp add: index_def)
        show "length (result[i := pools ! i ! 0]) = length pools" using "1.prems" by simp
        show "i + 1 \<le> length pools" using i by simp
      qed
      also have "take (i + 1) (result[i := pools ! i ! 0]) = take i result @ [pools ! i ! 0]"
        using \<open>i < length result\<close> by (simp add: take_Suc_conv_app_nth)
      finally show ?thesis using False d by auto
    qed
  next
    case False
    then have "i = length pools" "drop i pools = []" using "1.prems" by simp_all
    then show ?thesis using False "1.prems"
      by (subst product_init.simps) simp
  qed
qed

lemma pick_zeros: "pick pools (replicate (length pools) 0) = map (\<lambda>pool. pool ! 0) pools"
  by (induction pools) simp_all

lemma product_scan_step:
  "[] \<notin> set ps \<Longrightarrow> k < prod_list (map length ps) \<Longrightarrow>
   \<exists>j. product_scan (ps @ qs) (length ps)
          (odometer_digits (map length ps) k @ zs)
          (pick ps (odometer_digits (map length ps) k) @ rs)
        = Inr (j, odometer_digits (map length ps) (Suc k mod prod_list (map length ps)) @ zs,
                 pick ps (odometer_digits (map length ps) (Suc k mod prod_list (map length ps))) @ rs)
      \<and> (j = 0 \<longleftrightarrow> Suc k = prod_list (map length ps))"
proof (induction ps arbitrary: k qs zs rs rule: rev_induct)
  case Nil
  then show ?case by simp
next
  case (snoc p ps)
  define ls where "ls = map length ps"
  define l where "l = length p"
  define T where "T = prod_list ls"
  define k' where "k' = k div l"
  define c where "c = k mod l"
  from snoc.prems have ne: "[] \<notin> set ps" and l: "0 < l" by (auto simp: l_def)
  from snoc.prems have kT: "k < T * l" by (simp add: T_def ls_def l_def)
  then have k': "k' < T"
    by (simp add: less_mult_imp_div_less k'_def)
  have c: "c < l" using l by (simp add: c_def)
  have keq: "k = k' * l + c" by (simp add: k'_def c_def)
  have lsp: "map length (ps @ [p]) = ls @ [l]"
    by (simp add: ls_def l_def)
  have lsT: "prod_list (ls @ [l]) = T * l"
    by (simp add: T_def)
  have dsnoc: "odometer_digits (ls @ [l]) m = odometer_digits ls (m div l) @ [m mod l]" for m
    by (rule odometer_digits_snoc)
  have len: "length (odometer_digits ls m) = length ps" for m by (simp add: ls_def)
  have lenp: "length (pick ps (odometer_digits ls m)) = length ps" for m
    by (simp add: length_pick ls_def)
  have pk: "pick (ps @ [p]) (odometer_digits ls m @ [d]) = pick ps (odometer_digits ls m) @ [p ! d]" for m d
    using len [of m] by (simp add: pick_def)
  have ip: "index (ps @ p # qs) (length ps) = Inr p"
    by (simp add: index_def nth_append)
  have ii: "index (odometer_digits ls k' @ c # zs) (length ps) = Inr c"
    using len [of k'] by (simp add: index_def nth_append)
  have st: "store (pick ps (odometer_digits ls k') @ y # rs) (length ps) x
      = Inr (pick ps (odometer_digits ls k') @ x # rs)" for x y
    using lenp [of k'] by (simp add: store_def list_update_append)
  have upd: "(odometer_digits ls k' @ c # zs)[length ps := d] = odometer_digits ls k' @ d # zs" for d
    using len [of k'] by (simp add: list_update_append)
  have start: "product_scan ((ps @ [p]) @ qs) (length (ps @ [p]))
          (odometer_digits (ls @ [l]) k @ zs)
          (pick (ps @ [p]) (odometer_digits (ls @ [l]) k) @ rs)
      = product_scan ((ps @ [p]) @ qs) (Suc (length ps))
          ((odometer_digits ls k' @ [c]) @ zs)
          ((pick ps (odometer_digits ls k') @ [p ! c]) @ rs)"
    by (simp only: dsnoc pk k'_def c_def length_append list.size add_0_right add_Suc_right)
  show ?case
  proof (cases "c + 1 = l")
    case True
    have sk: "Suc k = Suc k' * l"
      using keq True by simp
    have m1: "Suc k mod (T * l) = (Suc k' mod T) * l"
      unfolding sk by (simp add: mult_mod_left)
    have m2: "(Suc k mod (T * l)) div l = Suc k' mod T" "(Suc k mod (T * l)) mod l = 0"
      using l by (simp_all add: m1)
    from snoc.IH [OF ne, of k' "p # qs" "0 # zs" "p ! 0 # rs"] k'
    obtain j where j: "product_scan (ps @ p # qs) (length ps)
          (odometer_digits ls k' @ 0 # zs) (pick ps (odometer_digits ls k') @ p ! 0 # rs)
        = Inr (j, odometer_digits ls (Suc k' mod T) @ 0 # zs,
                 pick ps (odometer_digits ls (Suc k' mod T)) @ p ! 0 # rs)"
      and j0: "j = 0 \<longleftrightarrow> Suc k' = T"
      unfolding ls_def T_def by blast
    have p0: "index p 0 = Inr (p ! 0)" using l by (simp add: index_def l_def)
    have "product_scan ((ps @ [p]) @ qs) (Suc (length ps))
          ((odometer_digits ls k' @ [c]) @ zs)
          ((pick ps (odometer_digits ls k') @ [p ! c]) @ rs)
        = product_scan (ps @ p # qs) (length ps)
          (odometer_digits ls k' @ 0 # zs) (pick ps (odometer_digits ls k') @ p ! 0 # rs)"
      using True by (simp add: ip ii st upd p0 l_def)
    also note j
    finally have "product_scan ((ps @ [p]) @ qs) (Suc (length ps))
          ((odometer_digits ls k' @ [c]) @ zs)
          ((pick ps (odometer_digits ls k') @ [p ! c]) @ rs)
        = Inr (j, odometer_digits (ls @ [l]) (Suc k mod (T * l)) @ zs,
                 pick (ps @ [p]) (odometer_digits (ls @ [l]) (Suc k mod (T * l))) @ rs)"
      by (simp add: dsnoc m2 pk)
    moreover have "j = 0 \<longleftrightarrow> Suc k = T * l"
      using j0 l unfolding sk by (simp del: mult_Suc)
    ultimately show ?thesis unfolding lsp lsT start by blast
  next
    case False
    then have c1: "Suc c < l" using c by simp
    have lt: "Suc k < T * l"
    proof -
      have "Suc k < k' * l + l" using c1 keq by linarith
      also have "\<dots> = Suc k' * l" by simp
      also have "\<dots> \<le> T * l" using k' by (simp add: Suc_leI del: mult_Suc)
      finally show ?thesis .
    qed
    have sk: "Suc k = Suc c + k' * l" using keq by simp
    have "(Suc c + k' * l) div l = k' + Suc c div l" "(Suc c + k' * l) mod l = Suc c mod l"
    proof -
      have "l \<noteq> 0" using l by simp
      then show "(Suc c + k' * l) div l = k' + Suc c div l"
        by (rule div_mult_self1)
      show "(Suc c + k' * l) mod l = Suc c mod l"
        by (rule mod_mult_self1)
    qed
    then have m2: "Suc k div l = k'" "Suc k mod l = Suc c"
      using c1 unfolding sk by simp_all
    have pc: "index p (Suc c) = Inr (p ! Suc c)" using c1 by (simp add: index_def l_def)
    have "product_scan ((ps @ [p]) @ qs) (Suc (length ps))
          ((odometer_digits ls k' @ [c]) @ zs)
          ((pick ps (odometer_digits ls k') @ [p ! c]) @ rs)
        = Inr (Suc (length ps), odometer_digits ls k' @ Suc c # zs,
                 pick ps (odometer_digits ls k') @ p ! Suc c # rs)"
      using False by (simp add: ip ii st upd pc l_def)
    then have "product_scan ((ps @ [p]) @ qs) (Suc (length ps))
          ((odometer_digits ls k' @ [c]) @ zs)
          ((pick ps (odometer_digits ls k') @ [p ! c]) @ rs)
        = Inr (Suc (length ps), odometer_digits (ls @ [l]) (Suc k mod (T * l)) @ zs,
                 pick (ps @ [p]) (odometer_digits (ls @ [l]) (Suc k mod (T * l))) @ rs)"
      using lt by (simp add: dsnoc m2 pk)
    moreover have "Suc (length ps) = 0 \<longleftrightarrow> Suc k = T * l"
      using lt by simp
    ultimately show ?thesis unfolding lsp lsT start by blast
  qed
qed


lemma product_loop_from:
  assumes "[] \<notin> set pools"
  shows "k < prod_list (map length pools) \<Longrightarrow>
    product_loop pools (odometer_digits (map length pools) k)
        (pick pools (odometer_digits (map length pools) k)) appended =
      Some (Inr (pick pools (odometer_digits (map length pools) 0) # appended
        @ map (\<lambda>k. pick pools (odometer_digits (map length pools) k))
            [Suc k..<prod_list (map length pools)]))"
proof (induction "prod_list (map length pools) - k" arbitrary: k appended rule: less_induct)
  case less
  define T where "T = prod_list (map length pools)"
  define st where "st = (\<lambda>k. odometer_digits (map length pools) k)"
  from product_scan_step [OF assms less.prems, of "[]" "[]" "[]"]
  obtain j where j: "product_scan pools (length pools) (st k) (pick pools (st k))
        = Inr (j, st (Suc k mod T), pick pools (st (Suc k mod T)))"
    and j0: "j = 0 \<longleftrightarrow> Suc k = T"
    unfolding T_def st_def by auto
  have unfold: "product_loop pools (st k) (pick pools (st k)) appended =
      (if j = 0 then Some (Inr (pick pools (st (Suc k mod T)) # appended))
       else product_loop pools (st (Suc k mod T)) (pick pools (st (Suc k mod T)))
              (appended @ [pick pools (st (Suc k mod T))]))"
    by (subst product_loop.simps) (simp add: j)
  show ?case
  proof (cases "Suc k = T")
    case True
    then have "Suc k mod T = 0" by simp
    then show ?thesis
      using True j0 unfold unfolding T_def st_def by simp
  next
    case False
    then have lt: "Suc k < T" using less.prems by (simp add: T_def)
    then have m: "Suc k mod T = Suc k" by simp
    have "product_loop pools (st (Suc k)) (pick pools (st (Suc k))) (appended @ [pick pools (st (Suc k))])
        = Some (Inr (pick pools (st 0) # (appended @ [pick pools (st (Suc k))])
            @ map (\<lambda>k. pick pools (st k)) [Suc (Suc k)..<T]))"
      unfolding T_def st_def
      by (rule less.hyps) (use lt in \<open>simp_all add: T_def\<close>)
    moreover have "[Suc k..<T] = Suc k # [Suc (Suc k)..<T]"
      using lt by (simp add: upt_conv_Cons)
    ultimately show ?thesis
      using False j0 unfold m unfolding T_def st_def by simp
  qed
qed

lemma prod_list_lengths_zero_iff: "prod_list (map length pools) = 0 \<longleftrightarrow> [] \<in> set pools"
  by (induction pools) auto

lemma Product_odometer: "Product pools = Some (Inr (odometer pools))"
proof (cases "[] \<in> set pools")
  case True
  then have "product_init pools 0 (replicate (length pools) 0) = Inr None"
    by (simp add: product_init_correct)
  moreover have "odometer pools = []"
    using True by (simp add: odometer_def prod_list_lengths_zero_iff)
  ultimately show ?thesis by (simp add: Product_def)
next
  case False
  then have T: "0 < prod_list (map length pools)"
    using prod_list_lengths_zero_iff [of pools] by simp
  have z: "replicate (length pools) 0 = odometer_digits (map length pools) 0"
    by (simp add: odometer_digits_zero)
  have "product_init pools 0 (replicate (length pools) 0) = Inr (Some (map (\<lambda>pool. pool ! 0) pools))"
    using False by (simp add: product_init_correct)
  then have "Product pools = product_loop pools (odometer_digits (map length pools) 0)
      (pick pools (odometer_digits (map length pools) 0)) []"
    by (simp add: Product_def pick_zeros z [symmetric])
  also have "\<dots> = Some (Inr (pick pools (odometer_digits (map length pools) 0) # []
        @ map (\<lambda>k. pick pools (odometer_digits (map length pools) k))
            [Suc 0..<prod_list (map length pools)]))"
    by (rule product_loop_from [OF False T])
  also have "\<dots> = Some (Inr (odometer pools))"
    using T by (simp add: odometer_def upt_conv_Cons)
  finally show ?thesis .
qed

lemma upt_mult_blocks:
  "[0..<a * b] = concat (map (\<lambda>i. map (\<lambda>j. i * b + j) [0..<b]) [0..<a])"
proof (induction a)
  case 0
  show ?case by simp
next
  case (Suc a)
  have "[0..<Suc a * b] = [0..<a * b] @ [a * b..<a * b + b]"
    by (metis add.commute le_add1 mult_Suc upt_add_eq_append zero_le)
  moreover have "[a * b..<a * b + b] = map (\<lambda>j. a * b + j) [0..<b]"
    by (simp add: map_add_upt add.commute)
  ultimately show ?case using Suc by simp
qed

lemma odometer_Cons:
  "odometer (p # ps) = concat (map (\<lambda>x. map (Cons x) (odometer ps)) p)"
proof -
  define T where "T = prod_list (map length ps)"
  define ls where "ls = map length ps"
  have blk: "map (\<lambda>k. pick (p # ps) (odometer_digits (length p # ls) k)) (map (\<lambda>j. i * T + j) [0..<T])
      = map (Cons (p ! i)) (odometer ps)" if "i < length p" for i
  proof -
    have "pick (p # ps) (odometer_digits (length p # ls) (i * T + j)) = p ! i # pick ps (odometer_digits ls j)"
      if "j < T" for j
    proof -
      have "(i * T + j) div T mod length p = i"
        using that \<open>i < length p\<close> by simp
      moreover have "odometer_digits ls (i * T + j) = odometer_digits ls j"
      proof -
        have "odometer_digits ls (i * T + j) = odometer_digits ls ((i * T + j) mod T)"
          unfolding T_def ls_def by (simp only: odometer_digits_mod)
        then show ?thesis using that by simp
      qed
      ultimately show ?thesis
        by (simp add: odometer_digits_Cons T_def ls_def)
    qed
    then show ?thesis
      by (simp add: odometer_def T_def ls_def)
  qed
  have "odometer (p # ps) = map (\<lambda>k. pick (p # ps) (odometer_digits (length p # ls) k)) [0..<length p * T]"
    by (simp add: odometer_def T_def ls_def)
  also have "\<dots> = concat (map (\<lambda>i. map (\<lambda>k. pick (p # ps) (odometer_digits (length p # ls) k))
        (map (\<lambda>j. i * T + j) [0..<T])) [0..<length p])"
    by (simp only: upt_mult_blocks map_concat map_map o_def)
  also have "\<dots> = concat (map (\<lambda>i. map (Cons (p ! i)) (odometer ps)) [0..<length p])"
    using blk by (intro arg_cong [where f = concat] map_cong) simp_all
  also have "\<dots> = concat (map (\<lambda>x. map (Cons x) (odometer ps)) (map (\<lambda>i. p ! i) [0..<length p]))"
    by (simp add: o_def)
  also have "map (\<lambda>i. p ! i) [0..<length p] = p"
    by (rule map_nth)
  finally show ?thesis .
qed

lemma odometer_product_lists: "odometer pools = product_lists pools"
proof (induction pools)
  case Nil
  show ?case by (simp add: odometer_def)
next
  case (Cons p ps)
  then show ?case by (simp add: odometer_Cons)
qed


lemma pick_nth:
  "length idx = length pools \<Longrightarrow> j < length pools \<Longrightarrow> pick pools idx ! j = pools ! j ! (idx ! j)"
  by (simp add: pick_def)

lemma odometer_nth:
  assumes "k < prod_list (map length pools)" "j < length pools"
  shows "odometer pools ! k ! j =
    pools ! j ! ((k div prod_list (map length (drop (Suc j) pools))) mod length (pools ! j))"
proof -
  have "odometer pools ! k = pick pools (odometer_digits (map length pools) k)"
    using assms(1) by (simp add: odometer_def)
  moreover have "odometer_digits (map length pools) k ! j =
      (k div prod_list (map length (drop (Suc j) pools))) mod length (pools ! j)"
    using assms(2) by (simp add: odometer_digits_def drop_map)
  ultimately show ?thesis using assms(2) by (simp add: pick_nth)
qed

text \<open>
  Claim C3. For every list of one or more pools, Product returns (no panic, no endless
  loop) a slice of exactly as many tuples as the product of the pool lengths, none if a
  pool is empty; its tuples are exactly the tuples that take one element from each pool;
  and they come in odometer order: component \<open>j\<close> of tuple number \<open>k\<close> is the element at
  position \<open>(k div W) mod L\<close> of pool \<open>j\<close>, where \<open>L\<close> is the length of pool \<open>j\<close> and
  \<open>W\<close> the product of the lengths of the pools after it. So the last pool's position
  changes with every tuple and the first pool's position changes most slowly.
\<close>

theorem Product_correct:
  "pools \<noteq> [] \<Longrightarrow>
   \<exists>results. Product pools = Some (Inr results)
     \<and> length results = prod_list (map length pools)
     \<and> ([] \<in> set pools \<longrightarrow> results = [])
     \<and> set results = {t. length t = length pools \<and> (\<forall>j < length pools. t ! j \<in> set (pools ! j))}
     \<and> (\<forall>k < length results. \<forall>j < length pools.
           results ! k ! j =
             pools ! j ! ((k div prod_list (map length (drop (Suc j) pools))) mod length (pools ! j)))
     \<and> results = product_lists pools"
proof -
  have len: "length (odometer pools) = prod_list (map length pools)"
    by (simp add: odometer_def)
  have empty: "[] \<in> set pools \<longrightarrow> odometer pools = []"
    by (simp add: odometer_def prod_list_lengths_zero_iff)
  have set: "set (odometer pools) =
      {t. length t = length pools \<and> (\<forall>j < length pools. t ! j \<in> set (pools ! j))}"
    unfolding odometer_product_lists product_lists_set
    by (auto simp: list_all2_conv_all_nth)
  have nth: "\<forall>k < length (odometer pools). \<forall>j < length pools.
      odometer pools ! k ! j =
        pools ! j ! ((k div prod_list (map length (drop (Suc j) pools))) mod length (pools ! j))"
    using odometer_nth [of _ pools] by (simp add: len)
  show ?thesis
    using Product_odometer [of pools] len empty set nth odometer_product_lists [of pools]
    by (intro exI [of _ "odometer pools"] conjI)
qed

theorem Product_correct_witness:
  "[[1, 2], [3, 4]] \<noteq> ([] :: int list list)
   \<and> Product [[1, 2], [3, 4]] = Some (Inr [[1, 3], [1, 4], [2, 3], [2, 4]])"
proof -
  have ne: "[[1, 2], [3, 4]] \<noteq> ([] :: int list list)" by simp
  from Product_correct [OF ne]
  obtain results where "Product [[1, 2], [3, 4]] = Some (Inr results)"
    and "results = product_lists [[1, 2], [3, 4 :: int]]"
    by (elim exE conjE)
  then show ?thesis by simp
qed


section \<open>Combinations enumerates the increasing position sequences\<close>

subsection \<open>Lexicographic order on lists of equal length\<close>

lemma lex_less_nthI:
  "length xs = length ys \<Longrightarrow> p < length xs \<Longrightarrow> take p xs = take p ys \<Longrightarrow> xs ! p < ys ! p
    \<Longrightarrow> xs < (ys :: nat list)"
proof (induction xs ys arbitrary: p rule: list_induct2)
  case Nil
  then show ?case by simp
next
  case (Cons x xs y ys)
  show ?case
  proof (cases p)
    case 0
    then show ?thesis using Cons.prems by simp
  next
    case (Suc q)
    then have "x = y" "take q xs = take q ys" "xs ! q < ys ! q" "q < length xs"
      using Cons.prems by simp_all
    then show ?thesis using Cons.IH [of q] by simp
  qed
qed

lemma lex_less_nthD:
  "length xs = length ys \<Longrightarrow> xs < (ys :: nat list) \<Longrightarrow>
   \<exists>p < length xs. take p xs = take p ys \<and> xs ! p < ys ! p"
proof (induction xs ys rule: list_induct2)
  case Nil
  then show ?case by simp
next
  case (Cons x xs y ys)
  show ?case
  proof (cases "x < y")
    case True
    then show ?thesis by (intro exI [of _ 0]) simp
  next
    case False
    then have "x = y" "xs < ys" using Cons.prems by simp_all
    then obtain p where "p < length xs" "take p xs = take p ys" "xs ! p < ys ! p"
      using Cons.IH by blast
    then show ?thesis using \<open>x = y\<close> by (intro exI [of _ "Suc p"]) simp
  qed
qed

lemma lex_before_iff: "length xs = length ys \<Longrightarrow> lex_before xs ys \<longleftrightarrow> xs < ys"
  unfolding lex_before_def
  using lex_less_nthI [of xs ys] lex_less_nthD [of xs ys] by auto

lemma pointwise_le_lex:
  "length xs = length ys \<Longrightarrow> (\<forall>i < length xs. xs ! i \<le> ys ! i) \<Longrightarrow> xs \<le> (ys :: nat list)"
proof (induction xs ys rule: list_induct2)
  case Nil
  then show ?case by simp
next
  case (Cons x xs y ys)
  from Cons.prems have "x \<le> y" by auto
  moreover have "xs \<le> ys"
  proof (rule Cons.IH)
    show "\<forall>i<length xs. xs ! i \<le> ys ! i"
      using Cons.prems by (metis Suc_less_eq length_Cons nth_Cons_Suc)
  qed
  ultimately show ?case by auto
qed

subsection \<open>Strictly increasing position sequences\<close>

lemma strictly_increasing_gap:
  "sorted_wrt (<) (c :: nat list) \<Longrightarrow> q < length c \<Longrightarrow> p \<le> q \<Longrightarrow> c ! p + (q - p) \<le> c ! q"
proof (induction "q - p" arbitrary: q)
  case 0
  then show ?case by simp
next
  case (Suc d)
  then obtain q' where q: "q = Suc q'" by (cases q) auto
  have pq: "p \<le> q'" using Suc.hyps(2) q by simp
  have "c ! q' < c ! q"
    using Suc.prems q by (simp add: sorted_wrt_nth_less)
  moreover have "c ! p + (q' - p) \<le> c ! q'"
    using Suc q pq by (intro Suc.hyps(1)) auto
  moreover have "q - p = Suc (q' - p)" using pq q by simp
  ultimately show ?case by linarith
qed

lemma comb_positions_upper:
  assumes "c \<in> comb_positions n r" "p < r"
  shows "c ! p + r \<le> p + n"
proof -
  from assms have l: "length c = r" and s: "sorted_wrt (<) c" and b: "set c \<subseteq> {..<n}"
    by (simp_all add: comb_positions_def)
  have "c ! p + (r - 1 - p) \<le> c ! (r - 1)"
    using s l assms(2) by (intro strictly_increasing_gap) auto
  moreover have "c ! (r - 1) < n"
    using b l assms(2) by (metis diff_less lessThan_iff less_imp_diff_less less_nat_zero_code not_gr_zero nth_mem subsetD zero_less_one)
  ultimately show ?thesis using assms(2) by linarith
qed

lemma comb_positions_lower:
  assumes "c \<in> comb_positions n r" "p < r"
  shows "p \<le> c ! p"
proof -
  from assms have l: "length c = r" and s: "sorted_wrt (<) c"
    by (simp_all add: comb_positions_def)
  have "c ! 0 + (p - 0) \<le> c ! p"
    using s l assms(2) by (intro strictly_increasing_gap) auto
  then show ?thesis by simp
qed

lemma finite_comb_positions: "finite (comb_positions n r)"
proof -
  have "comb_positions n r \<subseteq> {c. set c \<subseteq> {..<n} \<and> length c = r}"
    by (auto simp: comb_positions_def)
  then show ?thesis
    using finite_lists_length_eq [of "{..<n}" r] by (simp add: finite_subset)
qed

lemma comb_positions_r_le: "c \<in> comb_positions n r \<Longrightarrow> r \<le> n"
proof -
  assume c: "c \<in> comb_positions n r"
  show "r \<le> n"
  proof (cases "r = 0")
    case True
    then show ?thesis by simp
  next
    case False
    then have "c ! (r - 1) + r \<le> (r - 1) + n"
      using c by (intro comb_positions_upper) auto
    moreover have "r - 1 \<le> c ! (r - 1)"
      using c False by (intro comb_positions_lower [of c n r]) auto
    ultimately show ?thesis by linarith
  qed
qed


subsection \<open>The successor of a combination\<close>

lemma length_next_comb: "i \<le> length c \<Longrightarrow> length (next_comb c i) = length c"
  by (simp add: next_comb_def)

lemma next_comb_nth:
  assumes "i \<le> length c" "m < length c"
  shows "next_comb c i ! m = (if m < i then c ! m else c ! i + 1 + (m - i))"
proof (cases "m < i")
  case True
  then show ?thesis using assms by (simp add: next_comb_def nth_append)
next
  case False
  have "i + (m - i) = m" using False by simp
  then have "[i..<length c] ! (m - i) = m"
    by (metis assms(2) nth_upt)
  moreover have "m - i < length c - i" using False assms by simp
  ultimately show ?thesis using False assms by (simp add: next_comb_def nth_append)
qed

lemma take_next_comb: "i \<le> length c \<Longrightarrow> take i (next_comb c i) = take i c"
  by (simp add: next_comb_def)

lemma next_comb_valid:
  assumes c: "c \<in> comb_positions n r" and i: "i < r" and room: "c ! i + r < i + n"
  shows "next_comb c i \<in> comb_positions n r"
proof -
  from c have l: "length c = r" and s: "sorted_wrt (<) c" and b: "set c \<subseteq> {..<n}"
    by (simp_all add: comb_positions_def)
  have il: "i \<le> length c" using i l by simp
  have nth: "next_comb c i ! m = (if m < i then c ! m else c ! i + 1 + (m - i))" if "m < r" for m
    using that il l by (simp add: next_comb_nth)
  have len: "length (next_comb c i) = r"
    using il l by (simp add: length_next_comb)
  have "next_comb c i ! a < next_comb c i ! b" if "a < b" "b < r" for a b
  proof -
    have a: "a < r" using that by simp
    consider "b < i" | "a < i" "i \<le> b" | "i \<le> a" by linarith
    then show ?thesis
    proof cases
      case 1
      then show ?thesis using that a s l by (simp add: nth sorted_wrt_nth_less)
    next
      case 2
      have "c ! a < c ! i" using 2 s l i by (simp add: sorted_wrt_nth_less)
      then show ?thesis using 2 that a by (simp add: nth)
    next
      case 3
      then show ?thesis using that a by (simp add: nth)
    qed
  qed
  then have "sorted_wrt (<) (next_comb c i)"
    by (simp add: sorted_wrt_iff_nth_less len)
  moreover have "next_comb c i ! m < n" if "m < r" for m
  proof (cases "m < i")
    case True
    then have "c ! m \<in> set c" using that l by simp
    then show ?thesis using True that b by (auto simp: nth)
  next
    case False
    then show ?thesis using that room by (simp add: nth)
  qed
  then have "set (next_comb c i) \<subseteq> {..<n}"
    using len by (auto simp: in_set_conv_nth)
  ultimately show ?thesis using len by (simp add: comb_positions_def)
qed

lemma next_comb_greater:
  assumes "i < length c"
  shows "c < next_comb c i"
proof (rule lex_less_nthI [where p = i])
  show "length c = length (next_comb c i)" using assms by (simp add: length_next_comb)
  show "i < length c" by (rule assms)
  show "take i c = take i (next_comb c i)" using assms by (simp add: take_next_comb)
  show "c ! i < next_comb c i ! i" using assms by (simp add: next_comb_nth)
qed

lemma next_comb_least:
  assumes c: "c \<in> comb_positions n r" and i: "i < r"
    and maxed: "\<forall>m. i < m \<and> m < r \<longrightarrow> c ! m + r = m + n"
    and d: "d \<in> comb_positions n r" and less: "c < d"
  shows "next_comb c i \<le> d"
proof -
  from c have l: "length c = r" by (simp add: comb_positions_def)
  from d have ld: "length d = r" and sd: "sorted_wrt (<) d" by (simp_all add: comb_positions_def)
  have il: "i \<le> length c" using i l by simp
  have len: "length (next_comb c i) = r"
    using il l by (simp add: length_next_comb)
  from lex_less_nthD [OF _ less] l ld
  obtain p where p: "p < r" "take p c = take p d" "c ! p < d ! p" by auto
  have pre: "c ! m = d ! m" if "m < p" for m
    using p(2) that by (metis nth_take)
  have "\<not> i < p"
  proof
    assume "i < p"
    then have "c ! p + r = p + n" using maxed p(1) by simp
    moreover have "d ! p + r \<le> p + n" using d p(1) by (rule comb_positions_upper)
    ultimately show False using p(3) by simp
  qed
  then consider "p < i" | "p = i" by linarith
  then show ?thesis
  proof cases
    case 1
    have "next_comb c i < d"
    proof (rule lex_less_nthI [where p = p])
      show "length (next_comb c i) = length d" using len ld by simp
      show "p < length (next_comb c i)" using p(1) len by simp
      have "take p (next_comb c i) = take p (take i (next_comb c i))"
        using 1 by (simp add: min_def)
      also have "\<dots> = take p c" using 1 il by (simp add: take_next_comb min_def)
      finally show "take p (next_comb c i) = take p d" using p(2) by simp
      show "next_comb c i ! p < d ! p" using 1 p il l by (simp add: next_comb_nth)
    qed
    then show ?thesis by simp
  next
    case 2
    show ?thesis
    proof (rule pointwise_le_lex)
      show "length (next_comb c i) = length d" using len ld by simp
      show "\<forall>m < length (next_comb c i). next_comb c i ! m \<le> d ! m"
      proof (intro allI impI)
        fix m assume "m < length (next_comb c i)"
        then have m: "m < r" using len by simp
        show "next_comb c i ! m \<le> d ! m"
        proof (cases "m < i")
          case True
          then show ?thesis using m il l pre 2 by (simp add: next_comb_nth)
        next
          case False
          then have "d ! i + (m - i) \<le> d ! m"
            using sd ld m by (intro strictly_increasing_gap) auto
          moreover have "c ! i + 1 \<le> d ! i" using p(3) 2 by simp
          ultimately show ?thesis using False m il l by (simp add: next_comb_nth)
        qed
      qed
    qed
  qed
qed

lemma all_maxed_greatest:
  assumes c: "c \<in> comb_positions n r"
    and maxed: "\<forall>m. m < r \<longrightarrow> c ! m + r = m + n"
    and d: "d \<in> comb_positions n r"
  shows "\<not> c < d"
proof -
  from c have l: "length c = r" by (simp add: comb_positions_def)
  from d have ld: "length d = r" by (simp add: comb_positions_def)
  have "d \<le> c"
  proof (rule pointwise_le_lex)
    show "length d = length c" using l ld by simp
    show "\<forall>m < length d. d ! m \<le> c ! m"
    proof (intro allI impI)
      fix m assume "m < length d"
      then have m: "m < r" using ld by simp
      have "d ! m + r \<le> m + n" using d m by (rule comb_positions_upper)
      moreover have "c ! m + r = m + n" using maxed m by simp
      ultimately show "d ! m \<le> c ! m" by simp
    qed
  qed
  then show ?thesis by simp
qed

lemma first_comb_valid: "r \<le> n \<Longrightarrow> [0..<r] \<in> comb_positions n r"
  by (auto simp: comb_positions_def sorted_wrt_iff_nth_less)

lemma first_comb_least:
  assumes "d \<in> comb_positions n r"
  shows "[0..<r] \<le> d"
proof (rule pointwise_le_lex)
  from assms have ld: "length d = r" by (simp add: comb_positions_def)
  then show "length [0..<r] = length d" by simp
  show "\<forall>m < length [0..<r]. [0..<r] ! m \<le> d ! m"
    using comb_positions_lower [OF assms] by simp
qed


subsection \<open>Enumerating a finite set along a successor\<close>

lemma sorted_list_of_set_Cons:
  fixes x :: "'a :: linorder"
  assumes "finite S" "\<forall>y \<in> S. x < y"
  shows "sorted_list_of_set (insert x S) = x # sorted_list_of_set S"
proof -
  have "x \<notin> S" using assms(2) by auto
  then have "sorted_list_of_set (insert x S) = insort x (sorted_list_of_set S)"
    using assms(1) by (simp add: sorted_list_of_set_insert)
  also have "\<dots> = x # sorted_list_of_set S"
    using assms by (intro insort_is_Cons) (auto simp: less_imp_le)
  finally show ?thesis .
qed

lemma sorted_list_of_set_above:
  fixes x :: "'a :: linorder"
  assumes "finite A" "x \<in> A" "c < x" "\<forall>d \<in> A. c < d \<longrightarrow> x \<le> d"
  shows "sorted_list_of_set {d \<in> A. c < d} = x # sorted_list_of_set {d \<in> A. x < d}"
    and "card {d \<in> A. x < d} < card {d \<in> A. c < d}"
proof -
  have eq: "{d \<in> A. c < d} = insert x {d \<in> A. x < d}"
    using assms(2,3,4) by (auto simp: order_le_less)
  have fin: "finite {d \<in> A. x < d}" using assms(1) by simp
  show "sorted_list_of_set {d \<in> A. c < d} = x # sorted_list_of_set {d \<in> A. x < d}"
    unfolding eq using fin by (intro sorted_list_of_set_Cons) auto
  show "card {d \<in> A. x < d} < card {d \<in> A. c < d}"
    unfolding eq using fin by simp
qed

lemma sorted_list_of_set_from_least:
  fixes x :: "'a :: linorder"
  assumes "finite A" "x \<in> A" "\<forall>d \<in> A. x \<le> d"
  shows "sorted_list_of_set A = x # sorted_list_of_set {d \<in> A. x < d}"
proof -
  have eq: "A = insert x {d \<in> A. x < d}"
    using assms(2,3) by (auto simp: order_le_less)
  have fin: "finite {d \<in> A. x < d}" using assms(1) by simp
  have "sorted_list_of_set (insert x {d \<in> A. x < d}) = x # sorted_list_of_set {d \<in> A. x < d}"
    using fin by (intro sorted_list_of_set_Cons) auto
  then show ?thesis using eq by simp
qed

subsection \<open>The loops of Combinations\<close>

lemma fill_loop_correct:
  assumes "r \<le> length indices" "\<forall>k < r. indices ! k < length pool"
  shows "k \<le> r \<Longrightarrow> length result = r \<Longrightarrow>
    fill_loop pool indices r k result =
      Inr (take k result @ map (\<lambda>k. pool ! (indices ! k)) [k..<r])"
proof (induction "r - k" arbitrary: k result)
  case 0
  then show ?case by (subst fill_loop.simps) simp
next
  case (Suc d)
  then have k: "k < r" by simp
  then have up: "[k..<r] = k # [Suc k..<r]" by (simp add: upt_conv_Cons)
  have "fill_loop pool indices r k result =
      fill_loop pool indices r (k + 1) (result[k := pool ! (indices ! k)])"
    using k assms Suc.prems
    by (subst fill_loop.simps) (simp add: index_in_range store_in_range)
  also have "\<dots> = Inr (take (k + 1) (result[k := pool ! (indices ! k)])
        @ map (\<lambda>k. pool ! (indices ! k)) [k + 1..<r])"
    using Suc k by (intro Suc.hyps(1)) auto
  also have "take (k + 1) (result[k := pool ! (indices ! k)]) = take k result @ [pool ! (indices ! k)]"
    using k Suc.prems by (simp add: take_Suc_conv_app_nth)
  finally show ?case using up by simp
qed

lemma fill_result_correct:
  assumes "r \<le> length indices" "\<forall>k < r. indices ! k < length pool"
  shows "fill_result pool indices r = Inr (map (\<lambda>i. pool ! i) (take r indices))"
proof -
  have "fill_result pool indices r = Inr (map (\<lambda>k. pool ! (indices ! k)) [0..<r])"
    unfolding fill_result_def
    by (subst fill_loop_correct [OF assms]) simp_all
  moreover have "map (\<lambda>k. pool ! (indices ! k)) [0..<r] = map (\<lambda>i. pool ! i) (take r indices)"
    using assms(1) by (intro nth_equalityI) simp_all
  ultimately show ?thesis by simp
qed

lemma comb_scan_correct:
  assumes "length c = r" "r \<le> n"
  shows "k \<le> r \<Longrightarrow>
    \<exists>j. comb_scan c n r k = Inr j \<and> j \<le> k
      \<and> (\<forall>m. j \<le> m \<and> m < k \<longrightarrow> c ! m + r = m + n)
      \<and> (0 < j \<longrightarrow> c ! (j - 1) + r \<noteq> (j - 1) + n)"
proof (induction k)
  case 0
  then show ?case by simp
next
  case (Suc k)
  then have k: "k < length c" using assms by simp
  have eq: "int (c ! k) = int k + int n - int r \<longleftrightarrow> c ! k + r = k + n"
    using assms(2) by linarith
  show ?case
  proof (cases "c ! k + r = k + n")
    case True
    from Suc obtain j where j: "comb_scan c n r k = Inr j" "j \<le> k"
      "\<forall>m. j \<le> m \<and> m < k \<longrightarrow> c ! m + r = m + n"
      "0 < j \<longrightarrow> c ! (j - 1) + r \<noteq> (j - 1) + n"
      by auto
    have "comb_scan c n r (Suc k) = Inr j"
      using True k eq j(1) by (simp add: index_in_range)
    moreover have "\<forall>m. j \<le> m \<and> m < Suc k \<longrightarrow> c ! m + r = m + n"
      using j(3) True by (auto simp: less_Suc_eq)
    ultimately show ?thesis using j(2,4) by auto
  next
    case False
    have "comb_scan c n r (Suc k) = Inr (Suc k)"
      using False k eq by (simp add: index_in_range)
    then show ?thesis using False by auto
  qed
qed

lemma comb_reset_correct:
  "0 < j \<Longrightarrow> j \<le> r \<Longrightarrow> length c = r \<Longrightarrow>
    comb_reset c r j = Inr (take j c @ map (\<lambda>m. c ! (j - 1) + 1 + (m - j)) [j..<r])"
proof (induction "r - j" arbitrary: j c)
  case 0
  then show ?case by (subst comb_reset.simps) simp
next
  case (Suc d)
  then have j: "j < r" by simp
  then have up: "[j..<r] = j # [Suc j..<r]" by (simp add: upt_conv_Cons)
  define c1 where "c1 = c[j := c ! (j - 1) + 1]"
  have "comb_reset c r j = comb_reset c1 r (j + 1)"
    using j Suc.prems
    by (subst comb_reset.simps) (simp add: index_in_range store_in_range c1_def)
  also have "\<dots> = Inr (take (j + 1) c1 @ map (\<lambda>m. c1 ! (j + 1 - 1) + 1 + (m - (j + 1))) [j + 1..<r])"
    using Suc j by (intro Suc.hyps(1)) (auto simp: c1_def)
  also have "take (j + 1) c1 = take j c @ [c ! (j - 1) + 1]"
    using j Suc.prems by (simp add: c1_def take_Suc_conv_app_nth)
  also have "c1 ! (j + 1 - 1) = c ! (j - 1) + 1"
    using j Suc.prems by (simp add: c1_def)
  also have "map (\<lambda>m. c ! (j - 1) + 1 + 1 + (m - (j + 1))) [j + 1..<r]
      = map (\<lambda>m. c ! (j - 1) + 1 + (m - j)) [j + 1..<r]"
    by (intro map_cong) auto
  finally show ?case using up by simp
qed

lemma comb_step:
  assumes "i < length c"
  shows "comb_reset (c[i := c ! i + 1]) (length c) (i + 1) = Inr (next_comb c i)"
proof -
  have "comb_reset (c[i := c ! i + 1]) (length c) (i + 1)
      = Inr (take (i + 1) (c[i := c ! i + 1])
          @ map (\<lambda>m. (c[i := c ! i + 1]) ! (i + 1 - 1) + 1 + (m - (i + 1))) [i + 1..<length c])"
    using assms by (intro comb_reset_correct) auto
  also have "take (i + 1) (c[i := c ! i + 1]) = take i c @ [c ! i + 1]"
    using assms by (simp add: take_Suc_conv_app_nth)
  also have "(c[i := c ! i + 1]) ! (i + 1 - 1) = c ! i + 1"
    using assms by simp
  also have "map (\<lambda>m. c ! i + 1 + 1 + (m - (i + 1))) [i + 1..<length c]
      = map (\<lambda>m. c ! i + 1 + (m - i)) [i + 1..<length c]"
    by (intro map_cong) auto
  finally show ?thesis
    using assms by (simp add: next_comb_def upt_conv_Cons)
qed


lemma comb_positions_in_pool:
  "c \<in> comb_positions n r \<Longrightarrow> \<forall>k < length c. c ! k < n"
  using nth_mem by (fastforce simp: comb_positions_def)

lemma comb_loop_from:
  assumes n: "n = length pool"
  shows "c \<in> comb_positions n r \<Longrightarrow>
    comb_loop pool n r c results =
      Some (Inr (results @ map (map (\<lambda>i. pool ! i))
                   (sorted_list_of_set {d \<in> comb_positions n r. c < d})))"
proof (induction "card {d \<in> comb_positions n r. c < d}" arbitrary: c results rule: less_induct)
  case less
  note c = less.prems
  then have l: "length c = r" by (simp add: comb_positions_def)
  have rn: "r \<le> n" using c by (rule comb_positions_r_le)
  from comb_scan_correct [OF l rn, of r]
  obtain j where j: "comb_scan c n r r = Inr j" "j \<le> r"
    and maxed: "\<forall>m. j \<le> m \<and> m < r \<longrightarrow> c ! m + r = m + n"
    and here: "0 < j \<longrightarrow> c ! (j - 1) + r \<noteq> (j - 1) + n"
    by auto
  show ?case
  proof (cases "j = 0")
    case True
    then have "\<forall>m. m < r \<longrightarrow> c ! m + r = m + n" using maxed by simp
    then have empty: "{d \<in> comb_positions n r. c < d} = {}"
      using all_maxed_greatest [OF c] by auto
    have "sorted_list_of_set {d \<in> comb_positions n r. c < d} = []"
      unfolding empty by simp
    moreover have "comb_loop pool n r c results = Some (Inr results)"
      using True j(1) by (subst comb_loop.simps) simp
    ultimately show ?thesis by simp
  next
    case False
    define i where "i = j - 1"
    have i: "i < r" "j = Suc i" using False j(2) by (simp_all add: i_def)
    have "c ! i + r \<le> i + n" using c i(1) by (rule comb_positions_upper)
    moreover have "c ! i + r \<noteq> i + n" using here False by (simp add: i_def)
    ultimately have room: "c ! i + r < i + n" by simp
    have maxed': "\<forall>m. i < m \<and> m < r \<longrightarrow> c ! m + r = m + n"
      using maxed i(2) by simp
    define c' where "c' = next_comb c i"
    have c': "c' \<in> comb_positions n r"
      unfolding c'_def using c i(1) room by (rule next_comb_valid)
    have lc': "length c' = r" using c' by (simp add: comb_positions_def)
    have gt: "c < c'" unfolding c'_def using i(1) l by (intro next_comb_greater) simp
    have least: "\<forall>d \<in> comb_positions n r. c < d \<longrightarrow> c' \<le> d"
      unfolding c'_def using next_comb_least [OF c i(1) maxed'] by blast
    note above = sorted_list_of_set_above [OF finite_comb_positions c' gt least]
    have reset: "comb_reset (c[i := c ! i + 1]) r (i + 1) = Inr c'"
      using comb_step [of i c] i(1) l by (simp add: c'_def)
    have "fill_result pool c' r = Inr (map (\<lambda>i. pool ! i) c')"
      using comb_positions_in_pool [OF c'] n lc'
      by (subst fill_result_correct) simp_all
    then have fill: "fill_loop pool c' (length c') 0 (replicate r 0) = Inr (map (\<lambda>i. pool ! i) c')"
      by (simp add: fill_result_def lc')
    have "comb_loop pool n r c results = comb_loop pool n r c' (results @ [map (\<lambda>i. pool ! i) c'])"
      using j(1) i l reset fill
      by (subst comb_loop.simps) (simp add: index_in_range)
    also have "\<dots> = Some (Inr ((results @ [map (\<lambda>i. pool ! i) c']) @ map (map (\<lambda>i. pool ! i))
                   (sorted_list_of_set {d \<in> comb_positions n r. c' < d})))"
      using above(2) c' by (rule less.hyps)
    finally show ?thesis by (simp add: above(1))
  qed
qed

lemma Combinations_sorted_list:
  assumes "1 \<le> r" "r \<le> int (length pool)"
  shows "Combinations pool r =
    Some (Inr (map (map (\<lambda>i. pool ! i))
                 (sorted_list_of_set (comb_positions (length pool) (nat r)))))"
proof -
  define n where "n = length pool"
  define k where "k = nat r"
  have k: "k \<le> n" "0 < k" "r = int k" using assms by (simp_all add: k_def n_def)
  have c0: "[0..<k] \<in> comb_positions n k" using k(1) by (rule first_comb_valid)
  have fill: "fill_result pool [0..<k] k = Inr (map (\<lambda>i. pool ! i) [0..<k])"
    using k(1) by (subst fill_result_correct) (simp_all add: n_def)
  have "Combinations pool r = comb_loop pool n k [0..<k] [map (\<lambda>i. pool ! i) [0..<k]]"
    using k fill by (simp add: Combinations_def Let_def n_def [symmetric])
  also have "\<dots> = Some (Inr ([map (\<lambda>i. pool ! i) [0..<k]] @ map (map (\<lambda>i. pool ! i))
                   (sorted_list_of_set {d \<in> comb_positions n k. [0..<k] < d})))"
    using c0 by (intro comb_loop_from) (simp_all add: n_def)
  also have "[map (\<lambda>i. pool ! i) [0..<k]] @ map (map (\<lambda>i. pool ! i))
                   (sorted_list_of_set {d \<in> comb_positions n k. [0..<k] < d})
      = map (map (\<lambda>i. pool ! i)) (sorted_list_of_set (comb_positions n k))"
    using sorted_list_of_set_from_least [OF finite_comb_positions c0] first_comb_least [of _ n k]
    by simp
  finally show ?thesis by (simp add: n_def k_def)
qed

lemma card_comb_positions: "card (comb_positions n r) = n choose r"
proof -
  have inj: "inj_on set (comb_positions n r)"
    by (auto simp: inj_on_def comb_positions_def intro: strict_sorted_equal)
  have img: "set ` comb_positions n r = {B. B \<subseteq> {..<n} \<and> card B = r}"
  proof (intro equalityI subsetI)
    fix B assume "B \<in> set ` comb_positions n r"
    then obtain c where c: "B = set c" "length c = r" "sorted_wrt (<) c" "set c \<subseteq> {..<n}"
      by (auto simp: comb_positions_def)
    then have "distinct c" by (simp add: strict_sorted_iff)
    then show "B \<in> {B. B \<subseteq> {..<n} \<and> card B = r}"
      using c by (simp add: distinct_card)
  next
    fix B assume "B \<in> {B. B \<subseteq> {..<n} \<and> card B = r}"
    then have B: "B \<subseteq> {..<n}" "card B = r" by simp_all
    then have fin: "finite B" using finite_subset by blast
    have "sorted_list_of_set B \<in> comb_positions n r"
      using B fin by (simp add: comb_positions_def)
    moreover have "set (sorted_list_of_set B) = B" using fin by simp
    ultimately show "B \<in> set ` comb_positions n r" by (metis imageI)
  qed
  have "card (comb_positions n r) = card (set ` comb_positions n r)"
    using inj by (simp add: card_image)
  also have "\<dots> = card {..<n} choose r"
    unfolding img by (rule n_subsets) simp
  finally show ?thesis by simp
qed

lemma distinct_map_nth:
  assumes "distinct pool" "distinct ps" "\<forall>c \<in> set ps. set c \<subseteq> {..<length pool}"
  shows "distinct (map (map (\<lambda>i. pool ! i)) ps)"
proof -
  have "inj_on (map (\<lambda>i. pool ! i)) (set ps)"
  proof (rule inj_onI)
    fix c d assume c: "c \<in> set ps" and d: "d \<in> set ps"
      and eq: "map (\<lambda>i. pool ! i) c = map (\<lambda>i. pool ! i) d"
    have "inj_on (\<lambda>i. pool ! i) {..<length pool}"
      using assms(1) by (auto simp: inj_on_def nth_eq_iff_index_eq)
    then have "inj_on (\<lambda>i. pool ! i) (set c \<union> set d)"
      using assms(3) c d by (auto intro: inj_on_subset)
    then show "c = d" using eq by (rule inj_on_map_eq_map [THEN iffD1])
  qed
  then show ?thesis using assms(2) by (simp add: distinct_map)
qed

text \<open>
  Claim C2, as amended. For every pool of length \<open>n\<close> and every \<open>r\<close> with
  \<open>1 \<le> r \<le> n\<close>, Combinations returns (no panic, no endless loop) exactly \<open>C(n, r)\<close>
  tuples: the images under the pool of the position sequences \<open>ps\<close>, which are exactly
  the strictly increasing sequences of \<open>r\<close> positions below \<open>n\<close>, each once, in
  lexicographic order. The tuples themselves are pairwise different whenever the elements
  of the pool are.
\<close>

theorem Combinations_correct:
  "1 \<le> r \<Longrightarrow> r \<le> int (length pool) \<Longrightarrow>
   \<exists>ps. Combinations pool r = Some (Inr (map (map (\<lambda>i. pool ! i)) ps))
     \<and> length ps = length pool choose nat r
     \<and> set ps = {c. length c = nat r \<and> sorted_wrt (<) c \<and> set c \<subseteq> {..<length pool}}
     \<and> distinct ps
     \<and> sorted_wrt lex_before ps
     \<and> (distinct pool \<longrightarrow> distinct (map (map (\<lambda>i. pool ! i)) ps))"
proof -
  assume r: "1 \<le> r" "r \<le> int (length pool)"
  define ps where "ps = sorted_list_of_set (comb_positions (length pool) (nat r))"
  have fin: "finite (comb_positions (length pool) (nat r))" by (rule finite_comb_positions)
  have set: "set ps = comb_positions (length pool) (nat r)"
    using fin by (simp add: ps_def)
  have len: "length ps = length pool choose nat r"
    using fin by (simp add: ps_def card_comb_positions)
  have dist: "distinct ps" by (simp add: ps_def)
  have "sorted_wrt (<) ps" by (simp add: ps_def)
  moreover have "lex_before a b = (a < b)" if "a \<in> set ps" "b \<in> set ps" for a b
    using that set by (intro lex_before_iff) (simp add: comb_positions_def)
  ultimately have lex: "sorted_wrt lex_before ps"
    by (metis (no_types, lifting) sorted_wrt_mono_rel)
  have inj: "distinct pool \<longrightarrow> distinct (map (map (\<lambda>i. pool ! i)) ps)"
    using dist set by (auto intro!: distinct_map_nth simp: comb_positions_def)
  have "Combinations pool r = Some (Inr (map (map (\<lambda>i. pool ! i)) ps))"
    unfolding ps_def using r by (rule Combinations_sorted_list)
  then show ?thesis
    using len set dist lex inj unfolding comb_positions_def by blast
qed


theorem Combinations_correct_witness:
  "(1 :: int) \<le> 2 \<and> (2 :: int) \<le> int (length [1, 2, 3 :: int])
   \<and> (\<exists>ps. Combinations [1, 2, 3] 2 = Some (Inr (map (map (\<lambda>i. [1, 2, 3] ! i)) ps))
     \<and> length ps = 3
     \<and> set ps = {c. length c = 2 \<and> sorted_wrt (<) c \<and> set c \<subseteq> {..<3}}
     \<and> sorted_wrt lex_before ps
     \<and> distinct (map (map (\<lambda>i. [1, 2, 3 :: int] ! i)) ps))"
proof -
  have h1: "(1 :: int) \<le> 2" by simp
  have h2: "(2 :: int) \<le> int (length [1, 2, 3 :: int])" by simp
  from Combinations_correct [OF h1 h2]
  obtain ps where ps: "Combinations [1, 2, 3] 2 = Some (Inr (map (map (\<lambda>i. [1, 2, 3] ! i)) ps))"
    "length ps = length [1, 2, 3 :: int] choose nat 2"
    "set ps = {c. length c = nat 2 \<and> sorted_wrt (<) c \<and> set c \<subseteq> {..<length [1, 2, 3 :: int]}}"
    "sorted_wrt lex_before ps"
    "distinct [1, 2, 3 :: int] \<longrightarrow> distinct (map (map (\<lambda>i. [1, 2, 3 :: int] ! i)) ps)"
    by (elim exE conjE)
  have "length ps = 3" using ps(2) by (simp add: eval_nat_numeral binomial_Suc_Suc)
  moreover have "set ps = {c. length c = 2 \<and> sorted_wrt (<) c \<and> set c \<subseteq> {..<3}}"
    using ps(3) by (simp add: eval_nat_numeral)
  moreover have "distinct (map (map (\<lambda>i. [1, 2, 3 :: int] ! i)) ps)"
    using ps(5) by simp
  ultimately show ?thesis using h1 h2 ps(1,4) by blast
qed

text \<open>The call of the documentation.\<close>

lemma Combinations_example:
  "Combinations [1, 2, 3, 4, 5] 4 =
     Some (Inr [[1, 2, 3, 4], [1, 2, 3, 5], [1, 2, 4, 5], [1, 3, 4, 5], [2, 3, 4, 5]])"
  by (simp add: Combinations_def fill_result_def fill_loop.simps index_def store_def
      comb_loop.simps comb_reset.simps Let_def upt_rec eval_nat_numeral)

text \<open>
  Claim C2 as stated, with no duplicate tuple for every pool, fails for a pool that holds
  an element twice: the two position sequences \<open>[0]\<close> and \<open>[1]\<close> of the pool \<open>[7, 7]\<close>
  have the same image.
\<close>

theorem Combinations_duplicate_counterexample:
  "(1 :: int) \<le> 1 \<and> (1 :: int) \<le> int (length [7, 7 :: int])
   \<and> Combinations [7, 7] 1 = Some (Inr [[7], [7]]) \<and> \<not> distinct [[7], [7 :: int]]"
  by (simp add: Combinations_def fill_result_def fill_loop.simps index_def store_def
      comb_loop.simps comb_reset.simps)


section \<open>Permutations enumerates the arrangements of positions\<close>

subsection \<open>Removing one position\<close>

lemma length_remove_nth: "d < length s \<Longrightarrow> length (remove_nth d s) = length s - 1"
  by (simp add: remove_nth_def)

lemma remove_nth_0: "remove_nth 0 s = tl s"
  by (simp add: remove_nth_def drop_Suc)

lemma set_remove_nth:
  "distinct s \<Longrightarrow> d < length s \<Longrightarrow> set (remove_nth d s) = set s - {s ! d}"
proof -
  assume a: "distinct s" "d < length s"
  have s: "s = take d s @ s ! d # drop (Suc d) s"
    using a(2) by (rule id_take_nth_drop)
  have "distinct (take d s @ s ! d # drop (Suc d) s)" using a(1) s by simp
  then have "s ! d \<notin> set (take d s)" "s ! d \<notin> set (drop (Suc d) s)" by auto
  moreover have "set s = set (take d s) \<union> {s ! d} \<union> set (drop (Suc d) s)"
    by (subst s) auto
  ultimately show ?thesis by (auto simp: remove_nth_def)
qed

lemma distinct_remove_nth: "distinct s \<Longrightarrow> distinct (remove_nth d s)"
proof -
  assume a: "distinct s"
  have "distinct (take d s @ drop d s)" using a by simp
  then have "set (take d s) \<inter> set (drop d s) = {}"
    unfolding distinct_append by blast
  moreover have "set (drop (Suc d) s) \<subseteq> set (drop d s)"
    by (simp add: set_drop_subset_set_drop)
  ultimately have "set (take d s) \<inter> set (drop (Suc d) s) = {}" by blast
  then show ?thesis using a by (simp add: remove_nth_def)
qed

lemma sorted_remove_nth:
  "sorted_wrt (<) (s :: nat list) \<Longrightarrow> sorted_wrt (<) (remove_nth d s)"
proof -
  assume a: "sorted_wrt (<) s"
  have "sorted_wrt (<) (take d s @ drop d s)" using a by simp
  then have "sorted_wrt (<) (take d s)" "sorted_wrt (<) (drop d s)"
    "\<forall>x \<in> set (take d s). \<forall>y \<in> set (drop d s). x < y"
    unfolding sorted_wrt_append by auto
  moreover have "sorted_wrt (<) (drop (Suc d) s)" using a by (simp add: sorted_wrt_drop)
  moreover have "set (drop (Suc d) s) \<subseteq> set (drop d s)"
    by (simp add: set_drop_subset_set_drop)
  ultimately show ?thesis
    unfolding remove_nth_def sorted_wrt_append by blast
qed

subsection \<open>Decoding digits into a position array\<close>

lemma decode_zeros: "m \<le> length s \<Longrightarrow> decode s (replicate m 0) = s"
proof (induction m arbitrary: s)
  case 0
  show ?case by simp
next
  case (Suc m)
  then obtain x xs where s: "s = x # xs" by (cases s) auto
  then show ?case using Suc by (simp add: remove_nth_0)
qed

lemma decode_append:
  "decode s (lo @ hi) =
     take (length lo) (decode s lo) @ decode (drop (length lo) (decode s lo)) hi"
  by (induction lo arbitrary: s) simp_all

lemma valid_digits_nth:
  "valid_digits m ds \<longleftrightarrow> (\<forall>j < length ds. ds ! j < m - j)"
proof (induction ds arbitrary: m)
  case Nil
  show ?case by simp
next
  case (Cons d ds)
  have "(\<forall>j < length (d # ds). (d # ds) ! j < m - j)
      \<longleftrightarrow> d < m \<and> (\<forall>j < length ds. ds ! j < m - Suc j)"
    by (simp add: All_less_Suc2)
  then show ?case using Cons.IH [of "m - 1"] by simp
qed

lemma length_decode:
  "valid_digits (length s) ds \<Longrightarrow> length (decode s ds) = length s"
proof (induction ds arbitrary: s)
  case Nil
  show ?case by simp
next
  case (Cons d ds)
  then have d: "d < length s" and v: "valid_digits (length (remove_nth d s)) ds"
    by (simp_all add: length_remove_nth)
  from Cons.IH [OF v] show ?case using d by (simp add: length_remove_nth)
qed

lemma set_decode:
  "valid_digits (length s) ds \<Longrightarrow> set (decode s ds) = set s"
proof (induction ds arbitrary: s)
  case Nil
  show ?case by simp
next
  case (Cons d ds)
  then have d: "d < length s" and v: "valid_digits (length (remove_nth d s)) ds"
    by (simp_all add: length_remove_nth)
  have "set s = insert (s ! d) (set (remove_nth d s))"
  proof -
    have "s = take d s @ s ! d # drop (Suc d) s" using d by (rule id_take_nth_drop)
    then have "set s = set (take d s @ s ! d # drop (Suc d) s)" by simp
    then show ?thesis by (simp add: remove_nth_def)
  qed
  then show ?case using Cons.IH [OF v] by simp
qed

lemma valid_digits_append:
  "valid_digits m (lo @ hi) \<longleftrightarrow> valid_digits m lo \<and> valid_digits (m - length lo) hi"
  by (induction lo arbitrary: m) auto

lemma valid_digits_zeros: "k \<le> m \<Longrightarrow> valid_digits m (replicate k 0)"
  by (induction k arbitrary: m) auto


subsection \<open>The successor of a mixed-radix number\<close>

lemma odometer_succ_carry:
  assumes "0 < l" "k mod l + 1 = l"
  shows "odometer_digits (ls @ [l]) (Suc k mod (T * l)) = odometer_digits ls (Suc (k div l) mod T) @ [0]"
    and "Suc k = T * l \<longleftrightarrow> Suc (k div l) = T"
proof -
  have "Suc k = k div l * l + (k mod l + 1)" by simp
  also have "\<dots> = k div l * l + l" by (simp only: assms(2))
  also have "\<dots> = Suc (k div l) * l" by simp
  finally have sk: "Suc k = Suc (k div l) * l" .
  have m1: "Suc k mod (T * l) = (Suc (k div l) mod T) * l"
    unfolding sk by (simp add: mult_mod_left)
  have "(Suc k mod (T * l)) div l = Suc (k div l) mod T" "(Suc k mod (T * l)) mod l = 0"
    using assms(1) by (simp_all add: m1)
  then show "odometer_digits (ls @ [l]) (Suc k mod (T * l)) = odometer_digits ls (Suc (k div l) mod T) @ [0]"
    by (simp add: odometer_digits_snoc)
  show "Suc k = T * l \<longleftrightarrow> Suc (k div l) = T"
    unfolding sk using assms(1) by (simp del: mult_Suc)
qed

lemma odometer_succ_step:
  assumes "k < T * l" "k mod l + 1 < l"
  shows "odometer_digits (ls @ [l]) (Suc k mod (T * l)) = odometer_digits ls (k div l) @ [Suc (k mod l)]"
    and "Suc k \<noteq> T * l"
proof -
  define q where "q = k div l"
  define c where "c = k mod l"
  have l: "l \<noteq> 0" using assms(2) by auto
  have q: "q < T" using assms(1) by (simp add: less_mult_imp_div_less q_def)
  have c: "Suc c < l" using assms(2) by (simp add: c_def)
  have keq: "k = q * l + c" by (simp add: q_def c_def)
  have lt: "Suc k < T * l"
  proof -
    have "Suc k < q * l + l" using c keq by linarith
    also have "\<dots> = Suc q * l" by simp
    also have "\<dots> \<le> T * l" using q by (simp add: Suc_leI del: mult_Suc)
    finally show ?thesis .
  qed
  have sk: "Suc k = Suc c + q * l" using keq by linarith
  have "(Suc c + q * l) div l = q + Suc c div l"
    using l by (rule div_mult_self1)
  moreover have "(Suc c + q * l) mod l = Suc c mod l"
    by (rule mod_mult_self1)
  ultimately have "Suc k div l = q" "Suc k mod l = Suc c"
    using c unfolding sk by simp_all
  then have "odometer_digits (ls @ [l]) (Suc k) = odometer_digits ls q @ [Suc c]"
    by (simp only: odometer_digits_snoc)
  then show "odometer_digits (ls @ [l]) (Suc k mod (T * l)) = odometer_digits ls (k div l) @ [Suc (k mod l)]"
    using lt by (simp add: q_def c_def)
  show "Suc k \<noteq> T * l" using lt by simp
qed

subsection \<open>Shifting, rotating and swapping\<close>

lemma shift_loop_correct:
  "length xs = n \<Longrightarrow> j < n \<Longrightarrow>
   shift_loop xs n j = Inr (take j xs @ drop (Suc j) xs @ [last xs])"
proof (induction "n - j" arbitrary: j xs)
  case 0
  then show ?case by simp
next
  case (Suc d)
  show ?case
  proof (cases "j + 1 < n")
    case True
    define ys where "ys = xs[j := xs ! (j + 1)]"
    have ne: "xs \<noteq> []" using Suc.prems by auto
    have "shift_loop xs n j = shift_loop ys n (j + 1)"
      using True Suc.prems
      by (subst shift_loop.simps) (simp add: index_in_range store_in_range ys_def)
    also have "\<dots> = Inr (take (j + 1) ys @ drop (Suc (j + 1)) ys @ [last ys])"
      using Suc True by (intro Suc.hyps(1)) (auto simp: ys_def)
    also have "take (j + 1) ys = take j xs @ [xs ! (j + 1)]"
      using True Suc.prems by (simp add: ys_def take_Suc_conv_app_nth)
    also have "drop (Suc (j + 1)) ys = drop (Suc (Suc j)) xs"
      by (simp add: ys_def)
    also have "last ys = last xs"
    proof -
      have "j \<noteq> length xs - 1" using True Suc.prems by linarith
      then show ?thesis using ne by (simp add: ys_def last_list_update)
    qed
    finally have "shift_loop xs n j
        = Inr (take j xs @ (xs ! Suc j # drop (Suc (Suc j)) xs) @ [last xs])"
      by simp
    moreover have "xs ! Suc j # drop (Suc (Suc j)) xs = drop (Suc j) xs"
      using True Suc.prems by (simp add: Cons_nth_drop_Suc)
    ultimately show ?thesis by simp
  next
    case False
    then have j: "j = n - 1" using Suc.prems by simp
    have ne: "xs \<noteq> []" using Suc.prems by auto
    have "take j xs @ drop (Suc j) xs @ [last xs] = butlast xs @ [last xs]"
      using j Suc.prems by (simp add: butlast_conv_take)
    then show ?thesis using False ne
      by (subst shift_loop.simps) simp
  qed
qed

lemma rotate_left_correct:
  assumes "length xs = n" "i < n"
  shows "rotate_left xs n i = Inr (take i xs @ drop (Suc i) xs @ [xs ! i])"
proof -
  have "length (take i xs @ drop (Suc i) xs) = n - 1"
    using assms by simp
  then have "(take i xs @ drop (Suc i) xs @ [last xs])[n - 1 := xs ! i]
      = take i xs @ drop (Suc i) xs @ [xs ! i]"
    by (metis append.assoc list_update_length)
  then show ?thesis
    using assms by (simp add: rotate_left_def index_in_range shift_loop_correct store_def)
qed

lemma rotate_restores:
  assumes "S \<noteq> []" "n = length P + length S"
  shows "rotate_left (P @ (last S # butlast S)) n (length P) = Inr (P @ S)"
proof -
  have "rotate_left (P @ (last S # butlast S)) n (length P)
      = Inr (take (length P) (P @ (last S # butlast S))
          @ drop (Suc (length P)) (P @ (last S # butlast S))
          @ [(P @ (last S # butlast S)) ! length P])"
    using assms by (intro rotate_left_correct) auto
  then show ?thesis using assms(1) by simp
qed

lemma swap_advances:
  assumes "Suc c < length S"
  shows "swap (P @ (S ! c # remove_nth c S)) (length P) (int (length P + c + 1))
      = Inr (P @ (S ! Suc c # remove_nth (Suc c) S))"
proof -
  define xs where "xs = P @ (S ! c # remove_nth c S)"
  define q where "q = length P + c + 1"
  have len: "length xs = length P + length S"
    using assms by (simp add: xs_def length_remove_nth)
  have at_i: "xs ! length P = S ! c" by (simp add: xs_def)
  have at_q: "xs ! q = S ! Suc c"
  proof -
    have "xs ! q = remove_nth c S ! c"
      by (simp add: xs_def q_def nth_append)
    also have "\<dots> = S ! Suc c"
      using assms by (simp add: remove_nth_def nth_append)
    finally show ?thesis .
  qed
  have upd: "xs[length P := S ! Suc c, q := S ! c]
      = P @ (S ! Suc c # (remove_nth c S)[c := S ! c])"
    by (simp add: xs_def q_def list_update_append)
  have rem: "(remove_nth c S)[c := S ! c] = remove_nth (Suc c) S"
  proof -
    have "(remove_nth c S)[c := S ! c] = take c S @ (drop (Suc c) S)[0 := S ! c]"
      using assms by (simp add: remove_nth_def list_update_append)
    also have "drop (Suc c) S = S ! Suc c # drop (Suc (Suc c)) S"
      using assms by (simp add: Cons_nth_drop_Suc)
    also have "take c S @ (S ! Suc c # drop (Suc (Suc c)) S)[0 := S ! c]
        = take (Suc c) S @ drop (Suc (Suc c)) S"
      using assms by (simp add: take_Suc_conv_app_nth)
    finally show ?thesis by (simp add: remove_nth_def)
  qed
  have nq: "nat (int q) = q" by simp
  have "xs[length P := xs ! nat (int q), nat (int q) := xs ! length P]
      = P @ (S ! Suc c # remove_nth (Suc c) S)"
    by (simp only: nq at_i at_q upd rem)
  moreover have "length P < length xs \<and> 0 \<le> int q \<and> int q < int (length xs)"
    using assms len unfolding q_def by linarith
  ultimately have "swap xs (length P) (int q) = Inr (P @ (S ! Suc c # remove_nth (Suc c) S))"
    unfolding swap_def by simp
  then show ?thesis by (simp only: xs_def q_def)
qed


subsection \<open>The state of Permutations as a function of the digits\<close>

lemma perm_radices_Suc: "perm_radices n (Suc i) = perm_radices n i @ [n - i]"
  by (simp add: perm_radices_def)

lemma length_perm_radices [simp]: "length (perm_radices n i) = i"
  by (simp add: perm_radices_def)

lemma valid_odometer_digits:
  assumes "i \<le> n"
  shows "valid_digits n (odometer_digits (perm_radices n i) k)"
  unfolding valid_digits_nth
proof (intro allI impI)
  fix j assume "j < length (odometer_digits (perm_radices n i) k)"
  then have j: "j < i" by simp
  then have "0 < n - j" using assms by simp
  then show "odometer_digits (perm_radices n i) k ! j < n - j"
    using j by (simp add: odometer_digits_def perm_radices_def)
qed

lemma pad_zero:
  "length lo < r \<Longrightarrow> (lo @ [0]) @ replicate (r - length (lo @ [0])) 0 = lo @ replicate (r - length lo) (0 :: nat)"
  by (simp add: Suc_diff_Suc replicate_app_Cons_same flip: replicate_Suc)

lemma perm_indices_pad: "length lo < r \<Longrightarrow> perm_indices n r (lo @ [0]) = perm_indices n r lo"
  unfolding perm_indices_def by (simp only: pad_zero)

lemma perm_cycles_pad: "length lo < r \<Longrightarrow> perm_cycles n r (lo @ [0]) = perm_cycles n r lo"
  unfolding perm_cycles_def by (simp only: pad_zero)

lemma length_perm_cycles [simp]: "length (perm_cycles n r ds) = r"
  by (simp add: perm_cycles_def)

lemma perm_cycles_nth:
  "length lo < r \<Longrightarrow> perm_cycles n r (lo @ [c]) ! length lo = int n - int (length lo) - int c"
  by (simp add: perm_cycles_def nth_append)

lemma perm_cycles_update:
  assumes "length lo < r"
  shows "(perm_cycles n r (lo @ [c]))[length lo := int n - int (length lo) - int c']
      = perm_cycles n r (lo @ [c'])"
proof (rule nth_equalityI)
  show "length ((perm_cycles n r (lo @ [c]))[length lo := int n - int (length lo) - int c'])
      = length (perm_cycles n r (lo @ [c']))"
    by simp
  fix j assume "j < length ((perm_cycles n r (lo @ [c]))[length lo := int n - int (length lo) - int c'])"
  then have j: "j < r" by simp
  show "(perm_cycles n r (lo @ [c]))[length lo := int n - int (length lo) - int c'] ! j
      = perm_cycles n r (lo @ [c']) ! j"
  proof (cases "j = length lo")
    case True
    then show ?thesis using assms by (simp add: perm_cycles_nth)
  next
    case False
    then show ?thesis using j by (simp add: perm_cycles_def nth_append)
  qed
qed

lemma perm_indices_split:
  assumes "i < r" "r \<le> n" "valid_digits n lo" "length lo = i" "c < n - i"
  defines "P \<equiv> take i (decode [0..<n] lo)" and "S \<equiv> drop i (decode [0..<n] lo)"
  shows "perm_indices n r (lo @ [c]) = P @ (S ! c # remove_nth c S)"
    and "perm_indices n r lo = P @ S"
    and "length P = i" and "length S = n - i"
proof -
  have L: "length (decode [0..<n] lo) = n"
    using assms(3) by (subst length_decode) simp_all
  show lP: "length P = i" using L assms(1,2) by (simp add: P_def)
  show lS: "length S = n - i" using L by (simp add: S_def)
  have "perm_indices n r (lo @ [c]) = decode [0..<n] (lo @ (c # replicate (r - Suc i) 0))"
    using assms(4) by (simp add: perm_indices_def)
  also have "\<dots> = P @ decode S (c # replicate (r - Suc i) 0)"
    using assms(4) by (simp only: decode_append P_def S_def)
  also have "decode S (c # replicate (r - Suc i) 0) = S ! c # decode (remove_nth c S) (replicate (r - Suc i) 0)"
    by simp
  also have "decode (remove_nth c S) (replicate (r - Suc i) 0) = remove_nth c S"
    using assms(1,2,5) lS by (intro decode_zeros) (simp add: length_remove_nth)
  finally show "perm_indices n r (lo @ [c]) = P @ (S ! c # remove_nth c S)" .
  have "perm_indices n r lo = P @ decode S (replicate (r - i) 0)"
    using assms(4) by (simp only: perm_indices_def decode_append P_def S_def)
  also have "decode S (replicate (r - i) 0) = S"
    using assms(2) lS by (intro decode_zeros) simp
  finally show "perm_indices n r lo = P @ S" .
qed

lemma perm_indices_in_pool:
  assumes "r \<le> n" "valid_digits n ds" "length ds \<le> r"
  shows "length (perm_indices n r ds) = n" and "\<forall>k < n. perm_indices n r ds ! k < n"
proof -
  have v: "valid_digits (length [0..<n]) (ds @ replicate (r - length ds) 0)"
    using assms by (simp add: valid_digits_append valid_digits_zeros)
  show l: "length (perm_indices n r ds) = n"
    unfolding perm_indices_def using v by (subst length_decode) simp_all
  have "set (perm_indices n r ds) = set [0..<n]"
    unfolding perm_indices_def using v by (rule set_decode)
  then show "\<forall>k < n. perm_indices n r ds ! k < n"
    using l by (metis atLeastLessThan_iff nth_mem set_upt)
qed


subsection \<open>One scan of Permutations is the successor on the digits\<close>

lemma perm_scan_step:
  assumes rn: "r \<le> n" and n: "n = length pool"
  shows "i \<le> r \<Longrightarrow> k < prod_list (perm_radices n i) \<Longrightarrow>
    \<exists>j. perm_scan pool n r i
          (perm_indices n r (odometer_digits (perm_radices n i) k))
          (perm_cycles n r (odometer_digits (perm_radices n i) k)) results
        = Inr (j,
            perm_indices n r (odometer_digits (perm_radices n i) (Suc k mod prod_list (perm_radices n i))),
            perm_cycles n r (odometer_digits (perm_radices n i) (Suc k mod prod_list (perm_radices n i))),
            if j = 0 then results
            else results @ [map (\<lambda>x. pool ! x) (take r (perm_indices n r
                   (odometer_digits (perm_radices n i) (Suc k mod prod_list (perm_radices n i)))))])
      \<and> (j = 0 \<longleftrightarrow> Suc k = prod_list (perm_radices n i))"
proof (induction i arbitrary: k)
  case 0
  then show ?case by (simp add: perm_radices_def)
next
  case (Suc i)
  define l where "l = n - i"
  define T where "T = prod_list (perm_radices n i)"
  define q where "q = k div l"
  define c where "c = k mod l"
  define lo where "lo = odometer_digits (perm_radices n i) q"
  define P where "P = take i (decode [0..<n] lo)"
  define S where "S = drop i (decode [0..<n] lo)"
  have ir: "i < r" and "i \<le> r" using Suc.prems by simp_all
  have l: "0 < l" using ir rn by (simp add: l_def)
  have rad: "perm_radices n (Suc i) = perm_radices n i @ [l]"
    by (simp add: perm_radices_Suc l_def)
  have TT: "prod_list (perm_radices n (Suc i)) = T * l"
    by (simp add: rad T_def)
  have kT: "k < T * l" using Suc.prems TT by simp
  then have q: "q < T" by (simp add: less_mult_imp_div_less q_def)
  have c: "c < l" using l by (simp add: c_def)
  have llo: "length lo = i" by (simp add: lo_def)
  have vlo: "valid_digits n lo"
    unfolding lo_def using ir rn by (intro valid_odometer_digits) simp
  have dk: "odometer_digits (perm_radices n (Suc i)) k = lo @ [c]"
    by (simp add: rad odometer_digits_snoc lo_def q_def c_def)
  note split = perm_indices_split [OF ir rn vlo llo, folded P_def S_def]
  have lP: "length P = i" and lS: "length S = l"
    using split(3,4) [of 0] l by (simp_all add: l_def)
  have idx: "perm_indices n r (lo @ [d]) = P @ (S ! d # remove_nth d S)" if "d < l" for d
    using split(1) [of d] that by (simp add: l_def)
  have idx0: "perm_indices n r lo = P @ S"
    using split(2) [of 0] l by (simp add: l_def)
  have cyc: "index (perm_cycles n r (lo @ [c])) i = Inr (int n - int i - int c)"
    using ir llo perm_cycles_nth [of lo r n c] by (simp add: index_def)
  have cupd: "(perm_cycles n r (lo @ [c]))[i := int n - int i - int d] = perm_cycles n r (lo @ [d])" for d
    using perm_cycles_update [of lo r n c d] ir llo by simp
  have ceq: "int n - int i - int c - 1 = 0 \<longleftrightarrow> c + 1 = l"
    using c ir rn unfolding l_def by linarith
  show ?case
  proof (cases "c + 1 = l")
    case True
    have Sne: "S \<noteq> []" using lS l by auto
    have cl: "c = length S - 1" "Suc c = length S" using True lS by simp_all
    have "S ! c = last S" "remove_nth c S = butlast S"
      using Sne by (simp_all add: last_conv_nth remove_nth_def butlast_conv_take cl)
    then have "perm_indices n r (lo @ [c]) = P @ (last S # butlast S)"
      using idx [OF c] by simp
    moreover have "rotate_left (P @ (last S # butlast S)) n (length P) = Inr (P @ S)"
      using Sne lP lS ir rn by (intro rotate_restores) (simp_all add: l_def)
    ultimately have rot: "rotate_left (perm_indices n r (lo @ [c])) n i = Inr (perm_indices n r lo)"
      using lP idx0 by simp
    have cyc0: "(perm_cycles n r (lo @ [c]))[i := int n - int i] = perm_cycles n r lo"
      using cupd [of 0] ir llo by (simp add: perm_cycles_pad)
    from Suc.IH [OF \<open>i \<le> r\<close>, of q] q
    obtain j where j: "perm_scan pool n r i (perm_indices n r lo) (perm_cycles n r lo) results
        = Inr (j,
            perm_indices n r (odometer_digits (perm_radices n i) (Suc q mod T)),
            perm_cycles n r (odometer_digits (perm_radices n i) (Suc q mod T)),
            if j = 0 then results
            else results @ [map (\<lambda>x. pool ! x) (take r (perm_indices n r
                   (odometer_digits (perm_radices n i) (Suc q mod T))))])"
      and j0: "j = 0 \<longleftrightarrow> Suc q = T"
      unfolding lo_def T_def by blast
    have carry: "odometer_digits (perm_radices n (Suc i)) (Suc k mod (T * l))
        = odometer_digits (perm_radices n i) (Suc q mod T) @ [0]"
      and fin: "Suc k = T * l \<longleftrightarrow> Suc q = T"
      using odometer_succ_carry(1) [OF l, where k = k and ls = "perm_radices n i" and T = T]
        odometer_succ_carry(2) [OF l, where k = k and T = T] True
      by (simp_all add: rad q_def c_def)
    have li: "length (odometer_digits (perm_radices n i) (Suc q mod T)) < r"
      using ir by simp
    have "perm_scan pool n r (Suc i)
          (perm_indices n r (lo @ [c])) (perm_cycles n r (lo @ [c])) results
        = perm_scan pool n r i (perm_indices n r lo) (perm_cycles n r lo) results"
      using True ceq by (simp add: cyc rot cyc0)
    also note j
    finally have "perm_scan pool n r (Suc i)
          (perm_indices n r (lo @ [c])) (perm_cycles n r (lo @ [c])) results
        = Inr (j,
            perm_indices n r (odometer_digits (perm_radices n (Suc i)) (Suc k mod (T * l))),
            perm_cycles n r (odometer_digits (perm_radices n (Suc i)) (Suc k mod (T * l))),
            if j = 0 then results
            else results @ [map (\<lambda>x. pool ! x) (take r (perm_indices n r
                   (odometer_digits (perm_radices n (Suc i)) (Suc k mod (T * l)))))])"
      by (simp only: carry perm_indices_pad [OF li] perm_cycles_pad [OF li])
    moreover have "j = 0 \<longleftrightarrow> Suc k = T * l"
      using j0 fin by simp
    ultimately show ?thesis unfolding dk TT by blast
  next
    case False
    then have c1: "Suc c < l" using c by simp
    have step: "odometer_digits (perm_radices n (Suc i)) (Suc k mod (T * l)) = lo @ [Suc c]"
      and nofin: "Suc k \<noteq> T * l"
      using odometer_succ_step(1) [OF kT, where ls = "perm_radices n i"]
        odometer_succ_step(2) [OF kT] c1
      by (simp_all add: rad q_def c_def lo_def)
    have "swap (P @ (S ! c # remove_nth c S)) (length P) (int (length P + c + 1))
        = Inr (P @ (S ! Suc c # remove_nth (Suc c) S))"
      using c1 lS by (intro swap_advances) simp
    then have sa: "swap (perm_indices n r (lo @ [c])) i (int (i + c + 1))
        = Inr (perm_indices n r (lo @ [Suc c]))"
      by (simp only: idx [OF c] idx [OF c1] lP)
    have e2: "int i + (int c + 1) = int (i + c + 1)" by simp
    have sw: "swap (perm_indices n r (lo @ [c])) i (int i + (int c + 1))
        = Inr (perm_indices n r (lo @ [Suc c]))"
      unfolding e2 by (rule sa)
    have v': "valid_digits n (lo @ [Suc c])"
      using vlo c1 llo by (simp add: valid_digits_append l_def)
    have "fill_result pool (perm_indices n r (lo @ [Suc c])) r
        = Inr (map (\<lambda>x. pool ! x) (take r (perm_indices n r (lo @ [Suc c]))))"
      using perm_indices_in_pool [OF rn v'] llo ir rn n
      by (intro fill_result_correct) simp_all
    moreover have "(perm_cycles n r (lo @ [c]))[i := int n - int i - int c - 1] = perm_cycles n r (lo @ [Suc c])"
      using cupd [of "Suc c"] by (simp add: algebra_simps)
    ultimately have "perm_scan pool n r (Suc i)
          (perm_indices n r (lo @ [c])) (perm_cycles n r (lo @ [c])) results
        = Inr (Suc i, perm_indices n r (lo @ [Suc c]), perm_cycles n r (lo @ [Suc c]),
            results @ [map (\<lambda>x. pool ! x) (take r (perm_indices n r (lo @ [Suc c])))])"
      using False ceq by (simp add: cyc sw Let_def)
    then have "perm_scan pool n r (Suc i)
          (perm_indices n r (lo @ [c])) (perm_cycles n r (lo @ [c])) results
        = Inr (Suc i,
            perm_indices n r (odometer_digits (perm_radices n (Suc i)) (Suc k mod (T * l))),
            perm_cycles n r (odometer_digits (perm_radices n (Suc i)) (Suc k mod (T * l))),
            if Suc i = 0 then results
            else results @ [map (\<lambda>x. pool ! x) (take r (perm_indices n r
                   (odometer_digits (perm_radices n (Suc i)) (Suc k mod (T * l)))))])"
      by (simp only: step nat.simps if_False)
    moreover have "Suc i = 0 \<longleftrightarrow> Suc k = T * l"
      using nofin by simp
    ultimately show ?thesis unfolding dk TT by blast
  qed
qed


subsection \<open>The loop of Permutations\<close>

lemma perm_loop_from:
  assumes rn: "r \<le> n" and n: "n = length pool" and pos: "0 < n"
  shows "k < prod_list (perm_radices n r) \<Longrightarrow>
    perm_loop pool n r
        (perm_indices n r (odometer_digits (perm_radices n r) k))
        (perm_cycles n r (odometer_digits (perm_radices n r) k)) results =
      Some (Inr (results @ map (\<lambda>k. map (\<lambda>x. pool ! x)
                    (take r (perm_indices n r (odometer_digits (perm_radices n r) k))))
                  [Suc k..<prod_list (perm_radices n r)]))"
proof (induction "prod_list (perm_radices n r) - k" arbitrary: k results rule: less_induct)
  case less
  define T where "T = prod_list (perm_radices n r)"
  define ix where "ix = (\<lambda>k. perm_indices n r (odometer_digits (perm_radices n r) k))"
  define cy where "cy = (\<lambda>k. perm_cycles n r (odometer_digits (perm_radices n r) k))"
  define tup where "tup = (\<lambda>k. map (\<lambda>x. pool ! x) (take r (ix k)))"
  from perm_scan_step [OF rn n order_refl less.prems, of results]
  obtain j where j: "perm_scan pool n r r (ix k) (cy k) results
        = Inr (j, ix (Suc k mod T), cy (Suc k mod T),
               if j = 0 then results else results @ [tup (Suc k mod T)])"
    and j0: "j = 0 \<longleftrightarrow> Suc k = T"
    unfolding T_def ix_def cy_def tup_def by blast
  have unfold: "perm_loop pool n r (ix k) (cy k) results =
      (if j = 0 then Some (Inr results)
       else perm_loop pool n r (ix (Suc k mod T)) (cy (Suc k mod T)) (results @ [tup (Suc k mod T)]))"
    using pos by (subst perm_loop.simps) (simp add: j)
  show ?case
  proof (cases "Suc k = T")
    case True
    then show ?thesis
      using j0 unfold unfolding T_def ix_def cy_def tup_def by simp
  next
    case False
    then have lt: "Suc k < T" using less.prems by (simp add: T_def)
    then have m: "Suc k mod T = Suc k" by simp
    have "perm_loop pool n r (ix (Suc k)) (cy (Suc k)) (results @ [tup (Suc k)])
        = Some (Inr ((results @ [tup (Suc k)]) @ map tup [Suc (Suc k)..<T]))"
      unfolding T_def ix_def cy_def tup_def
      by (rule less.hyps) (use lt in \<open>simp_all add: T_def\<close>)
    moreover have "[Suc k..<T] = Suc k # [Suc (Suc k)..<T]"
      using lt by (simp add: upt_conv_Cons)
    ultimately show ?thesis
      using False j0 unfold m unfolding T_def ix_def cy_def tup_def by simp
  qed
qed

lemma prod_list_perm_radices_pos: "r \<le> n \<Longrightarrow> 0 < prod_list (perm_radices n r)"
  by (induction r) (simp_all add: perm_radices_Suc, simp add: perm_radices_def)

lemma prod_list_perm_radices_fact:
  "r \<le> n \<Longrightarrow> prod_list (perm_radices n r) * fact (n - r) = fact n"
proof (induction r)
  case 0
  show ?case by (simp add: perm_radices_def)
next
  case (Suc r)
  then have "fact (n - r) = (n - r) * fact (n - Suc r)"
    by (simp add: fact_reduce)
  then show ?case using Suc by (simp add: perm_radices_Suc mult.assoc)
qed

lemma Permutations_digits:
  assumes "1 \<le> r" "r \<le> int (length pool)"
  shows "Permutations pool r =
    Some (Inr (map (\<lambda>k. map (\<lambda>x. pool ! x)
                 (take (nat r) (decode [0..<length pool]
                    (odometer_digits (perm_radices (length pool) (nat r)) k))))
               [0..<prod_list (perm_radices (length pool) (nat r))]))"
proof -
  define n where "n = length pool"
  define m where "m = nat r"
  define T where "T = prod_list (perm_radices n m)"
  have m: "m \<le> n" "0 < m" "r = int m" using assms by (simp_all add: m_def n_def)
  have T: "0 < T" unfolding T_def using m(1) by (rule prod_list_perm_radices_pos)
  have full: "perm_indices n m ds = decode [0..<n] ds" if "length ds = m" for ds
    using that by (simp add: perm_indices_def)
  have z: "odometer_digits (perm_radices n m) 0 = replicate m 0"
    by (simp add: odometer_digits_zero)
  have ix0: "perm_indices n m (odometer_digits (perm_radices n m) 0) = [0..<n]"
    using m(1) by (simp add: z perm_indices_def decode_zeros)
  have cy0: "perm_cycles n m (odometer_digits (perm_radices n m) 0) = map (\<lambda>i. int n - int i) [0..<m]"
    by (simp add: z perm_cycles_def)
  have fill: "fill_result pool [0..<n] m = Inr (map (\<lambda>x. pool ! x) (take m [0..<n]))"
    using m(1) by (intro fill_result_correct) (simp_all add: n_def)
  have "Permutations pool r = perm_loop pool n m [0..<n] (map (\<lambda>i. int n - int i) [0..<m])
      [map (\<lambda>x. pool ! x) (take m [0..<n])]"
    using m fill by (simp add: Permutations_def Let_def n_def [symmetric])
  also have "\<dots> = perm_loop pool n m
        (perm_indices n m (odometer_digits (perm_radices n m) 0))
        (perm_cycles n m (odometer_digits (perm_radices n m) 0))
        [map (\<lambda>x. pool ! x) (take m (perm_indices n m (odometer_digits (perm_radices n m) 0)))]"
    by (simp only: ix0 cy0)
  also have "\<dots> = Some (Inr ([map (\<lambda>x. pool ! x) (take m (perm_indices n m (odometer_digits (perm_radices n m) 0)))]
        @ map (\<lambda>k. map (\<lambda>x. pool ! x)
                    (take m (perm_indices n m (odometer_digits (perm_radices n m) k))))
                  [Suc 0..<prod_list (perm_radices n m)]))"
  proof (rule perm_loop_from)
    show "m \<le> n" by (rule m(1))
    show "n = length pool" by (rule n_def)
    show "0 < n" using m(1,2) by simp
    show "0 < prod_list (perm_radices n m)" using T by (simp add: T_def)
  qed
  also have "\<dots> = Some (Inr (map (\<lambda>k. map (\<lambda>x. pool ! x)
                    (take m (perm_indices n m (odometer_digits (perm_radices n m) k)))) [0..<T]))"
    using T by (simp add: upt_conv_Cons T_def)
  also have "map (\<lambda>k. map (\<lambda>x. pool ! x)
                    (take m (perm_indices n m (odometer_digits (perm_radices n m) k)))) [0..<T]
      = map (\<lambda>k. map (\<lambda>x. pool ! x)
                    (take m (decode [0..<n] (odometer_digits (perm_radices n m) k)))) [0..<T]"
    by (simp add: full)
  finally show ?thesis by (simp add: n_def m_def T_def)
qed


subsection \<open>The digits enumerate the arrangements in lexicographic order\<close>

lemma pick_upt:
  assumes "length ds = length lens" "\<forall>j < length lens. ds ! j < lens ! j"
  shows "pick (map (\<lambda>l. [0..<l]) lens) ds = ds"
proof (rule nth_equalityI)
  show "length (pick (map (\<lambda>l. [0..<l]) lens) ds) = length ds"
    using assms(1) by (simp add: pick_def)
  fix j assume "j < length (pick (map (\<lambda>l. [0..<l]) lens) ds)"
  then have j: "j < length lens" using assms(1) by (simp add: pick_def)
  then show "pick (map (\<lambda>l. [0..<l]) lens) ds ! j = ds ! j"
    using assms by (simp add: pick_nth)
qed

lemma odometer_digits_product_lists:
  "map (odometer_digits lens) [0..<prod_list lens] = product_lists (map (\<lambda>l. [0..<l]) lens)"
proof -
  have ml: "map length (map (\<lambda>l. [0..<l]) lens) = lens"
    by (simp add: o_def)
  have "pick (map (\<lambda>l. [0..<l]) lens) (odometer_digits lens k) = odometer_digits lens k"
    if "k < prod_list lens" for k
  proof (rule pick_upt)
    show "length (odometer_digits lens k) = length lens" by simp
    show "\<forall>j < length lens. odometer_digits lens k ! j < lens ! j"
    proof (intro allI impI)
      fix j assume j: "j < length lens"
      have "lens ! j \<noteq> 0"
      proof
        assume "lens ! j = 0"
        then have "0 \<in> set lens" using j by (metis nth_mem)
        then have "prod_list lens = 0" by (induction lens) auto
        then show False using that by simp
      qed
      then show "odometer_digits lens k ! j < lens ! j"
        using j by (simp add: odometer_digits_def)
    qed
  qed
  then have "odometer (map (\<lambda>l. [0..<l]) lens) = map (odometer_digits lens) [0..<prod_list lens]"
    unfolding odometer_def ml by simp
  then show ?thesis by (simp add: odometer_product_lists)
qed

lemma take_decode_picks:
  "r \<le> length s \<Longrightarrow>
   map (\<lambda>ds. take r (decode s ds)) (product_lists (map (\<lambda>j. [0..<length s - j]) [0..<r]))
     = picks s r"
proof (induction r arbitrary: s)
  case 0
  show ?case by simp
next
  case (Suc r)
  define rest where "rest = (\<lambda>m. product_lists (map (\<lambda>j. [0..<m - j]) [0..<r]))"
  have radices: "map (\<lambda>j. [0..<length s - j]) [0..<Suc r]
      = [0..<length s] # map (\<lambda>j. [0..<(length s - 1) - j]) [0..<r]"
    by (simp add: upt_conv_Cons map_Suc_upt [symmetric] del: upt_Suc)
  have blk: "map (\<lambda>ds. take (Suc r) (decode s ds)) (map (Cons d) (rest (length s - 1)))
      = map (Cons (s ! d)) (picks (remove_nth d s) r)" if "d < length s" for d
  proof -
    have l: "length (remove_nth d s) = length s - 1"
      using that by (rule length_remove_nth)
    have "map (\<lambda>ds. take r (decode (remove_nth d s) ds)) (rest (length (remove_nth d s)))
        = picks (remove_nth d s) r"
      unfolding rest_def using Suc.prems l by (intro Suc.IH) simp
    then have "map (Cons (s ! d)) (picks (remove_nth d s) r)
        = map (Cons (s ! d)) (map (\<lambda>ds. take r (decode (remove_nth d s) ds)) (rest (length s - 1)))"
      by (simp only: l)
    also have "\<dots> = map (\<lambda>ds. take (Suc r) (decode s ds)) (map (Cons d) (rest (length s - 1)))"
      by (simp add: o_def)
    finally show ?thesis by (rule sym)
  qed
  have "map (\<lambda>ds. take (Suc r) (decode s ds)) (product_lists (map (\<lambda>j. [0..<length s - j]) [0..<Suc r]))
      = concat (map (\<lambda>d. map (\<lambda>ds. take (Suc r) (decode s ds)) (map (Cons d) (rest (length s - 1))))
          [0..<length s])"
    unfolding radices by (simp add: rest_def map_concat o_def)
  also have "\<dots> = concat (map (\<lambda>d. map (Cons (s ! d)) (picks (remove_nth d s) r)) [0..<length s])"
    using blk by (intro arg_cong [where f = concat] map_cong) simp_all
  finally show ?case by simp
qed

lemma sorted_wrt_concat_blocks:
  assumes "\<forall>d < m. sorted_wrt R (f d)"
    and "\<forall>d d'. d < d' \<and> d' < m \<longrightarrow> (\<forall>x \<in> set (f d). \<forall>y \<in> set (f d'). R x y)"
  shows "sorted_wrt R (concat (map f [0..<m]))"
  using assms
proof (induction m)
  case 0
  show ?case by simp
next
  case (Suc m)
  have "sorted_wrt R (concat (map f [0..<m]))"
  proof (rule Suc.IH)
    show "\<forall>d < m. sorted_wrt R (f d)" using Suc.prems(1) by simp
    show "\<forall>d d'. d < d' \<and> d' < m \<longrightarrow> (\<forall>x \<in> set (f d). \<forall>y \<in> set (f d'). R x y)"
      using Suc.prems(2) by (metis less_Suc_eq)
  qed
  moreover have "sorted_wrt R (f m)" using Suc.prems(1) by simp
  moreover have "R x y" if "x \<in> set (f d)" "d < m" "y \<in> set (f m)" for x y d
    using Suc.prems(2) that by (metis lessI)
  then have "\<forall>x \<in> set (concat (map f [0..<m])). \<forall>y \<in> set (f m). R x y"
    by auto
  ultimately show ?case by (simp add: sorted_wrt_append)
qed

lemma sorted_picks:
  "sorted_wrt (<) (s :: nat list) \<Longrightarrow> sorted_wrt (<) (picks s r)"
proof (induction r arbitrary: s)
  case 0
  show ?case by simp
next
  case (Suc r)
  have "sorted_wrt (<) (concat (map (\<lambda>d. map (Cons (s ! d)) (picks (remove_nth d s) r)) [0..<length s]))"
  proof (rule sorted_wrt_concat_blocks)
    show "\<forall>d < length s. sorted_wrt (<) (map (Cons (s ! d)) (picks (remove_nth d s) r))"
      using Suc.IH [OF sorted_remove_nth [OF Suc.prems]]
      by (simp add: sorted_wrt_map)
    show "\<forall>d d'. d < d' \<and> d' < length s \<longrightarrow>
        (\<forall>x \<in> set (map (Cons (s ! d)) (picks (remove_nth d s) r)).
         \<forall>y \<in> set (map (Cons (s ! d')) (picks (remove_nth d' s) r)). x < y)"
      using Suc.prems by (auto simp: sorted_wrt_nth_less)
  qed
  then show ?case by simp
qed

lemma set_picks:
  "distinct s \<Longrightarrow> set (picks s r) = {c. length c = r \<and> distinct c \<and> set c \<subseteq> set s}"
proof (induction r arbitrary: s)
  case 0
  show ?case by auto
next
  case (Suc r)
  have IH: "set (picks (remove_nth d s) r)
      = {c. length c = r \<and> distinct c \<and> set c \<subseteq> set s - {s ! d}}" if "d < length s" for d
    using Suc.IH [OF distinct_remove_nth [OF Suc.prems], of d] that Suc.prems
    by (simp add: set_remove_nth)
  show ?case
  proof (intro equalityI subsetI)
    fix c assume "c \<in> set (picks s (Suc r))"
    then obtain d c' where d: "d < length s" "c = s ! d # c'" "c' \<in> set (picks (remove_nth d s) r)"
      by auto
    then have "length c' = r" "distinct c'" "set c' \<subseteq> set s - {s ! d}"
      using IH [OF d(1)] by auto
    then show "c \<in> {c. length c = Suc r \<and> distinct c \<and> set c \<subseteq> set s}"
      using d by auto
  next
    fix c assume "c \<in> {c. length c = Suc r \<and> distinct c \<and> set c \<subseteq> set s}"
    then have c: "length c = Suc r" "distinct c" "set c \<subseteq> set s" by simp_all
    then obtain x c' where xc: "c = x # c'" by (cases c) auto
    then have "x \<in> set s" using c(3) by simp
    then obtain d where d: "d < length s" "s ! d = x" by (auto simp: in_set_conv_nth)
    have "length c' = r" "distinct c'" "set c' \<subseteq> set s - {s ! d}"
      using c xc d by auto
    then have "c' \<in> set (picks (remove_nth d s) r)"
      using IH [OF d(1)] by simp
    then show "c \<in> set (picks s (Suc r))"
      using d xc by auto
  qed
qed

lemma Permutations_picks:
  assumes "1 \<le> r" "r \<le> int (length pool)"
  shows "Permutations pool r =
    Some (Inr (map (map (\<lambda>i. pool ! i)) (picks [0..<length pool] (nat r))))"
proof -
  define n where "n = length pool"
  define m where "m = nat r"
  have m: "m \<le> n" using assms by (simp add: m_def n_def)
  have rad: "map (\<lambda>l. [0..<l]) (perm_radices n m) = map (\<lambda>j. [0..<length [0..<n] - j]) [0..<m]"
    by (simp add: perm_radices_def)
  have "map (\<lambda>k. take m (decode [0..<n] (odometer_digits (perm_radices n m) k)))
          [0..<prod_list (perm_radices n m)]
      = map (\<lambda>ds. take m (decode [0..<n] ds))
          (map (odometer_digits (perm_radices n m)) [0..<prod_list (perm_radices n m)])"
    by simp
  also have "\<dots> = picks [0..<n] m"
    unfolding odometer_digits_product_lists rad using m by (intro take_decode_picks) simp
  finally have e: "map (\<lambda>k. take m (decode [0..<n] (odometer_digits (perm_radices n m) k)))
          [0..<prod_list (perm_radices n m)] = picks [0..<n] m" .
  have "map (\<lambda>k. map (\<lambda>x. pool ! x)
                 (take m (decode [0..<n] (odometer_digits (perm_radices n m) k))))
          [0..<prod_list (perm_radices n m)]
      = map (map (\<lambda>i. pool ! i))
          (map (\<lambda>k. take m (decode [0..<n] (odometer_digits (perm_radices n m) k)))
             [0..<prod_list (perm_radices n m)])"
    by (simp add: o_def)
  then have "map (map (\<lambda>i. pool ! i)) (picks [0..<n] m)
      = map (\<lambda>k. map (\<lambda>x. pool ! x)
                 (take m (decode [0..<n] (odometer_digits (perm_radices n m) k))))
          [0..<prod_list (perm_radices n m)]"
    unfolding e by (rule sym)
  then show ?thesis
    using Permutations_digits [OF assms] by (simp add: n_def m_def)
qed

text \<open>
  Claim C1, as amended. For every pool of length \<open>n\<close> and every \<open>r\<close> with
  \<open>1 \<le> r \<le> n\<close>, Permutations returns (no panic, no endless loop) exactly
  \<open>n! / (n - r)!\<close> tuples: the images under the pool of the position sequences \<open>ps\<close>,
  which are exactly the sequences of \<open>r\<close> pairwise distinct positions below \<open>n\<close>, each
  once, in lexicographic order. The tuples themselves are pairwise different whenever
  the elements of the pool are.
\<close>

theorem Permutations_correct:
  "1 \<le> r \<Longrightarrow> r \<le> int (length pool) \<Longrightarrow>
   \<exists>ps. Permutations pool r = Some (Inr (map (map (\<lambda>i. pool ! i)) ps))
     \<and> length ps = fact (length pool) div fact (length pool - nat r)
     \<and> set ps = {c. length c = nat r \<and> distinct c \<and> set c \<subseteq> {..<length pool}}
     \<and> distinct ps
     \<and> sorted_wrt lex_before ps
     \<and> (distinct pool \<longrightarrow> distinct (map (map (\<lambda>i. pool ! i)) ps))"
proof -
  assume r: "1 \<le> r" "r \<le> int (length pool)"
  define n where "n = length pool"
  define m where "m = nat r"
  define ps where "ps = picks [0..<n] m"
  have m: "m \<le> n" using r by (simp add: m_def n_def)
  have set: "set ps = {c. length c = m \<and> distinct c \<and> set c \<subseteq> {..<n}}"
    unfolding ps_def by (subst set_picks) (auto simp: lessThan_atLeast0)
  have srt: "sorted_wrt (<) ps"
    unfolding ps_def by (intro sorted_picks) (simp add: sorted_wrt_iff_nth_less)
  then have dist: "distinct ps" by (simp add: strict_sorted_iff)
  have "lex_before a b = (a < b)" if "a \<in> set ps" "b \<in> set ps" for a b
    using that set by (intro lex_before_iff) simp
  with srt have lex: "sorted_wrt lex_before ps"
    by (metis (no_types, lifting) sorted_wrt_mono_rel)
  have eq: "Permutations pool r = Some (Inr (map (map (\<lambda>i. pool ! i)) ps))"
    unfolding ps_def n_def m_def using r by (rule Permutations_picks)
  have "map (map (\<lambda>i. pool ! i)) ps
      = map (\<lambda>k. map (\<lambda>x. pool ! x)
                 (take m (decode [0..<n] (odometer_digits (perm_radices n m) k))))
          [0..<prod_list (perm_radices n m)]"
    using eq Permutations_digits [OF r] unfolding n_def m_def by simp
  then have "length (map (map (\<lambda>i. pool ! i)) ps)
      = length (map (\<lambda>k. map (\<lambda>x. pool ! x)
                 (take m (decode [0..<n] (odometer_digits (perm_radices n m) k))))
          [0..<prod_list (perm_radices n m)])"
    by (rule arg_cong)
  then have "length ps = prod_list (perm_radices n m)" by simp
  moreover have "prod_list (perm_radices n m) * fact (n - m) = fact n"
    using m by (rule prod_list_perm_radices_fact)
  then have "fact n div fact (n - m) = prod_list (perm_radices n m)"
    by (metis fact_nonzero nonzero_mult_div_cancel_right)
  ultimately have len: "length ps = fact n div fact (n - m)" by simp
  have inj: "distinct pool \<longrightarrow> distinct (map (map (\<lambda>i. pool ! i)) ps)"
    using dist set by (auto intro!: distinct_map_nth simp: n_def)
  show ?thesis
    using eq len set dist lex inj unfolding n_def m_def by blast
qed


theorem Permutations_correct_witness:
  "(1 :: int) \<le> 2 \<and> (2 :: int) \<le> int (length [1, 2, 3 :: int])
   \<and> (\<exists>ps. Permutations [1, 2, 3] 2 = Some (Inr (map (map (\<lambda>i. [1, 2, 3] ! i)) ps))
     \<and> length ps = 6
     \<and> set ps = {c. length c = 2 \<and> distinct c \<and> set c \<subseteq> {..<3}}
     \<and> sorted_wrt lex_before ps
     \<and> distinct (map (map (\<lambda>i. [1, 2, 3 :: int] ! i)) ps))"
proof -
  have h1: "(1 :: int) \<le> 2" by simp
  have h2: "(2 :: int) \<le> int (length [1, 2, 3 :: int])" by simp
  from Permutations_correct [OF h1 h2]
  obtain ps where ps: "Permutations [1, 2, 3] 2 = Some (Inr (map (map (\<lambda>i. [1, 2, 3] ! i)) ps))"
    "length ps = fact (length [1, 2, 3 :: int]) div fact (length [1, 2, 3 :: int] - nat 2)"
    "set ps = {c. length c = nat 2 \<and> distinct c \<and> set c \<subseteq> {..<length [1, 2, 3 :: int]}}"
    "sorted_wrt lex_before ps"
    "distinct [1, 2, 3 :: int] \<longrightarrow> distinct (map (map (\<lambda>i. [1, 2, 3 :: int] ! i)) ps)"
    by (elim exE conjE)
  have "length ps = 6" using ps(2) by (simp add: fact_numeral)
  moreover have "set ps = {c. length c = 2 \<and> distinct c \<and> set c \<subseteq> {..<3}}"
    using ps(3) by (simp add: eval_nat_numeral)
  moreover have "distinct (map (map (\<lambda>i. [1, 2, 3 :: int] ! i)) ps)"
    using ps(5) by simp
  ultimately show ?thesis using h1 h2 ps(1,4) by blast
qed

text \<open>The call of the documentation.\<close>

lemma Permutations_example:
  "Permutations [1, 2, 3] 3 =
     Some (Inr [[1, 2, 3], [1, 3, 2], [2, 1, 3], [2, 3, 1], [3, 1, 2], [3, 2, 1]])"
  by (simp add: Permutations_def fill_result_def fill_loop.simps index_def store_def
      perm_loop.simps swap_def rotate_left_def shift_loop.simps Let_def upt_rec eval_nat_numeral)

text \<open>
  Claim C1 as stated, with no duplicate tuple for every pool, fails for a pool that holds
  an element twice: the two position sequences \<open>[0]\<close> and \<open>[1]\<close> of the pool \<open>[7, 7]\<close>
  have the same image.
\<close>

theorem Permutations_duplicate_counterexample:
  "(1 :: int) \<le> 1 \<and> (1 :: int) \<le> int (length [7, 7 :: int])
   \<and> Permutations [7, 7] 1 = Some (Inr [[7], [7]]) \<and> \<not> distinct [[7], [7 :: int]]"
  by (simp add: Permutations_def fill_result_def fill_loop.simps index_def store_def
      perm_loop.simps swap_def rotate_left_def shift_loop.simps)


end
